theory Spec2Isabelle
  imports Main "HOL-Library.Signed_Division"
begin

unbundle bit_operations_syntax

section \<open>Constants of main.go\<close>

definition AttemptsCount :: int where "AttemptsCount = 3"
definition MaxTTL :: int where "MaxTTL = 64"
definition MaxWaitSec :: int where "MaxWaitSec = 4"
definition MsgLength :: int where "MsgLength = 56"

text \<open>\<open>time.Second\<close> as a \<open>time.Duration\<close>, which counts nanoseconds.\<close>
definition Second :: int where "Second = 1000000000"

section \<open>ICMP messages\<close>

text \<open>Go's \<open>[]byte\<close> and \<open>string\<close> are byte sequences; a \<open>char\<close> is one byte.\<close>
type_synonym byte = char

text \<open>\<open>ipv4.ICMPType\<close> is an integer type; the constants below are the ones of the
  \<open>ipv4\<close> package that main.go names, and destination-unreachable for the examples.\<close>
type_synonym icmp_type = int

definition ICMPTypeEchoReply :: icmp_type where "ICMPTypeEchoReply = 0"
definition ICMPTypeDestinationUnreachable :: icmp_type where "ICMPTypeDestinationUnreachable = 3"
definition ICMPTypeEcho :: icmp_type where "ICMPTypeEcho = 8"
definition ICMPTypeTimeExceeded :: icmp_type where "ICMPTypeTimeExceeded = 11"

datatype body =
    Echo (ID: int) (Seq: int) (Data: "byte list")
  | RawBody (raw: "byte list")

record icmp_message =
  Type :: icmp_type
  Code :: int
  Body :: body

section \<open>buildEchoRequest\<close>

definition dataChunk :: "byte list" where
  "dataChunk = ''DATA''"

text \<open>The loop \<open>for count := size / len(dataChunk); count > 0; count-- { buf.Write(dataChunk) }\<close>.\<close>
function write_chunks :: "int \<Rightarrow> byte list \<Rightarrow> byte list" where
  "write_chunks count buf =
     (if count > 0 then write_chunks (count - 1) (buf @ dataChunk) else buf)"
  by pat_completeness auto
termination
  by (relation "measure (\<lambda>(count, buf). nat count)") auto

declare write_chunks.simps [simp del]

text \<open>The buffer handed to the message as \<open>Data\<close>. Go's \<open>/\<close> on \<open>int\<close> truncates
  towards zero (\<open>sdiv\<close>); \<open>dataChunk[:diff]\<close> is only reached with \<open>0 < diff\<close>.\<close>
definition echo_data :: "int \<Rightarrow> byte list" where
  "echo_data sz =
     (let buf = write_chunks (sz sdiv int (length dataChunk)) [];
          diff = sz - int (length buf)
      in if diff > 0 then buf @ take (nat diff) dataChunk else buf)"

text \<open>The \<open>icmp.Message\<close> literal; \<open>pid\<close> is the value of \<open>os.Getpid()\<close>.\<close>
definition echo_message :: "int \<Rightarrow> icmp_type \<Rightarrow> int \<Rightarrow> icmp_message" where
  "echo_message pid t sz =
     \<lparr>Type = t, Code = 0, Body = Echo (pid AND 0xffff) 1 (echo_data sz)\<rparr>"

datatype error =
    LibError string
  | ShortWrite int int
  | InvalidICMPType "icmp_message option" "string option"

text \<open>\<open>msg.Marshal(nil)\<close> belongs to the icmp package: it is a parameter, returning Go's
  pair of the bytes and the error.\<close>
type_synonym marshal = "icmp_message \<Rightarrow> byte list \<times> error option"

definition buildEchoRequest :: "marshal \<Rightarrow> int \<Rightarrow> icmp_type \<Rightarrow> int \<Rightarrow> byte list \<times> error option" where
  "buildEchoRequest marshal pid t sz = marshal (echo_message pid t sz)"

section \<open>The world outside the program\<close>

text \<open>A \<open>net.Addr\<close> is used through its \<open>String()\<close> only, so an address is its text.
  A \<open>time.Time\<close> and a \<open>time.Duration\<close> are counts of nanoseconds.\<close>
type_synonym addr = string
type_synonym duration = int
type_synonym time = int

text \<open>Index and slice expressions of Go panic out of range.\<close>
datatype panic = IndexOutOfRange | SliceBoundsOutOfRange

text \<open>The calls made on the socket, in the order they are made.\<close>
datatype op =
    OpListen
  | OpSetReadDeadline time
  | OpSetTTL int
  | OpWriteTo addr
  | OpReadFrom
  | OpClose

text \<open>The lines printed: one constructor for each \<open>fmt.Printf\<close> of main.go, holding its
  arguments.\<close>
datatype line =
    Tracing string int
  | InvalidAddress string
  | HopReached int "duration list" string
  | HopTTLExc int "duration list" string
  | HopError int
  | Ended

record world =
  clock :: time
  sock_ops :: "op list"
  stdout :: "line list"

text \<open>What the network does during one pass of the attempt loop: the result of
  \<open>connection.WriteTo\<close> (the count written, or an error), the result of
  \<open>connection.ReadFrom\<close> (the datagram and its sender, or an error), and the time
  that passes while \<open>ReadFrom\<close> blocks.\<close>
record attempt_env =
  write_result :: "error + int"
  read_result :: "error + (byte list \<times> addr)"
  rtt :: duration

text \<open>What the network does during one call of socketExchange.\<close>
record hop_env =
  listen_err :: "error option"
  deadline_err :: "error option"
  attempt :: "nat \<Rightarrow> attempt_env"

text \<open>The library functions and the network, as parameters: \<open>msg.Marshal\<close>, \<open>os.Getpid\<close>,
  \<open>icmp.ParseMessage\<close>, \<open>net.LookupAddr\<close> (names and error, as Go returns both),
  \<open>net.ResolveIPAddr\<close>, and the behaviour of the network for each hop limit.\<close>
record sys =
  Marshal :: marshal
  Getpid :: int
  ParseMessage :: "byte list \<Rightarrow> error + icmp_message"
  LookupAddr :: "string \<Rightarrow> string list \<times> error option"
  ResolveIPAddr :: "string \<Rightarrow> error + addr"
  network :: "int \<Rightarrow> hop_env"

section \<open>socketExchange\<close>

text \<open>The four values socketExchange returns.\<close>
type_synonym xresult = "duration list \<times> addr list \<times> icmp_type option \<times> error option"

text \<open>The variables the attempt loop updates (\<open>peer\<close>, \<open>msg\<close> and \<open>t\<close> of the source).\<close>
record xstate =
  durationsArray :: "duration list"
  peersArray :: "addr list"
  peer_v :: "addr option"
  msg_v :: "icmp_message option"
  t_v :: icmp_type

text \<open>One pass of the loop body: \<open>Inl\<close> is a \<open>return\<close> from inside the loop.\<close>
definition attempt_body ::
  "sys \<Rightarrow> attempt_env \<Rightarrow> addr \<Rightarrow> byte list \<Rightarrow> xstate \<Rightarrow> world \<Rightarrow> (xresult + xstate) \<times> world" where
  "attempt_body sy e destination b s w =
     (let start = clock w;
          w1 = w\<lparr>sock_ops := sock_ops w @ [OpWriteTo destination]\<rparr>
      in case write_result e of
           Inl err \<Rightarrow> (Inl ([0], [], None, Some err), w1)
         | Inr n \<Rightarrow>
             if n \<noteq> int (length b)
             then (Inl ([0], [], None, Some (ShortWrite n (int (length b)))), w1)
             else
               let w2 = w1\<lparr>clock := clock w1 + rtt e, sock_ops := sock_ops w1 @ [OpReadFrom]\<rparr>
               in case read_result e of
                    Inl err \<Rightarrow> (Inl ([0], [], None, Some err), w2)
                  | Inr (reply, p) \<Rightarrow>
                      let duration = clock w2 - start;
                          s1 = s\<lparr>durationsArray := durationsArray s @ [duration],
                                 peersArray := peersArray s @ [p],
                                 peer_v := Some p\<rparr>
                      in case ParseMessage sy (take 1500 reply) of
                           Inl err \<Rightarrow> (Inl ([0], [], None, Some err), w2)
                         | Inr m \<Rightarrow>
                             (Inr (s1\<lparr>msg_v := Some m,
                                       t_v := (if Type m = ICMPTypeEchoReply
                                               then ICMPTypeEchoReply else t_v s1)\<rparr>), w2))"

text \<open>\<open>for i := 0; i<attempts; i++\<close>.\<close>
function exchange_loop ::
  "sys \<Rightarrow> (nat \<Rightarrow> attempt_env) \<Rightarrow> addr \<Rightarrow> byte list \<Rightarrow> int \<Rightarrow> int \<Rightarrow> xstate \<Rightarrow> world
     \<Rightarrow> (xresult + xstate) \<times> world" where
  "exchange_loop sy env destination b attempts i s w =
     (if i < attempts
      then (case attempt_body sy (env (nat i)) destination b s w of
              (Inl r, w') \<Rightarrow> (Inl r, w')
            | (Inr s', w') \<Rightarrow> exchange_loop sy env destination b attempts (i + 1) s' w')
      else (Inr s, w))"
  by pat_completeness auto
termination
  by (relation "measure (\<lambda>(sy, env, destination, b, attempts, i, s, w). nat (attempts - i))") auto

declare exchange_loop.simps [simp del]

text \<open>The \<open>switch t\<close> after the loop.\<close>
definition classify :: "xstate \<Rightarrow> xresult" where
  "classify s =
     (if t_v s = ICMPTypeEchoReply then (durationsArray s, peersArray s, Some (t_v s), None)
      else if t_v s = ICMPTypeTimeExceeded then (durationsArray s, peersArray s, Some (t_v s), None)
      else ([0], [], None, Some (InvalidICMPType (msg_v s) (peer_v s))))"

text \<open>The part of socketExchange after \<open>defer connection.Close()\<close>.\<close>
definition exchange_body ::
  "sys \<Rightarrow> hop_env \<Rightarrow> addr \<Rightarrow> byte list \<Rightarrow> int \<Rightarrow> int \<Rightarrow> world \<Rightarrow> xresult \<times> world" where
  "exchange_body sy env destination b ttl attempts w =
     (let w1 = w\<lparr>sock_ops := sock_ops w @ [OpSetReadDeadline (clock w + MaxWaitSec * Second)]\<rparr>
      in case deadline_err env of
           Some err \<Rightarrow> (([0], [], None, Some err), w1)
         | None \<Rightarrow>
             let w2 = w1\<lparr>sock_ops := sock_ops w1 @ [OpSetTTL ttl]\<rparr>;
                 s0 = \<lparr>durationsArray = [], peersArray = [], peer_v = None, msg_v = None,
                       t_v = ICMPTypeTimeExceeded\<rparr>
             in case exchange_loop sy (attempt env) destination b attempts 0 s0 w2 of
                  (Inl r, w3) \<Rightarrow> (r, w3)
                | (Inr s, w3) \<Rightarrow> (classify s, w3))"

definition socketExchange ::
  "sys \<Rightarrow> hop_env \<Rightarrow> addr \<Rightarrow> byte list \<Rightarrow> int \<Rightarrow> int \<Rightarrow> world \<Rightarrow> xresult \<times> world" where
  "socketExchange sy env destination b ttl attempts w =
     (let w0 = w\<lparr>sock_ops := sock_ops w @ [OpListen]\<rparr>
      in case listen_err env of
           Some err \<Rightarrow> (([], [], None, Some err), w0)
         | None \<Rightarrow>
             (case exchange_body sy env destination b ttl attempts w0 of
                (r, w') \<Rightarrow> (r, w'\<lparr>sock_ops := sock_ops w' @ [OpClose]\<rparr>)))"

section \<open>createPeersString\<close>

text \<open>\<open>for i := 0; i<len(peersArray)-1; i++\<close>; both index expressions are in range under the
  loop condition.\<close>
function identical_loop :: "addr list \<Rightarrow> int \<Rightarrow> bool \<Rightarrow> bool" where
  "identical_loop ps i peersAreIdentical =
     (if i < int (length ps) - 1
      then identical_loop ps (i + 1)
             (if ps ! nat i \<noteq> ps ! nat (i + 1) then False else peersAreIdentical)
      else peersAreIdentical)"
  by pat_completeness auto
termination
  by (relation "measure (\<lambda>(ps, i, f). nat (int (length ps) - 1 - i))") auto

declare identical_loop.simps [simp del]

text \<open>\<open>for j := 0; j<len(ptr); j++\<close>, over the names left; \<open>ptr[j][:len(ptr[j])-1]\<close> panics on
  an empty name.\<close>
fun names_loop :: "string list \<Rightarrow> string \<Rightarrow> panic + string" where
  "names_loop [] ptrStr = Inr ptrStr"
| "names_loop (name # rest) ptrStr =
     (if length name < 1 then Inl SliceBoundsOutOfRange
      else names_loop rest (ptrStr @ take (length name - 1) name @ ''  ''))"

text \<open>The text added after one address: the names found for \<open>first\<close>.\<close>
definition ptr_string :: "sys \<Rightarrow> addr \<Rightarrow> panic + string" where
  "ptr_string sy first =
     (let ptr = fst (LookupAddr sy first)
      in if length ptr > 0
         then (case names_loop ptr '' ('' of
                 Inl e \<Rightarrow> Inl e
               | Inr ptrStr \<Rightarrow> Inr (take (length ptrStr - 2) ptrStr @ '')''))
         else Inr [])"

text \<open>\<open>for i := 0; i<len(peersArray);i++\<close>: the lookup is of \<open>peersArray[0]\<close>, the text shown is
  \<open>peersArray[i]\<close>; both are in range under the loop condition.\<close>
function peers_loop :: "sys \<Rightarrow> addr list \<Rightarrow> int \<Rightarrow> string \<Rightarrow> panic + string" where
  "peers_loop sy ps i buffStr =
     (if i < int (length ps)
      then (case ptr_string sy (ps ! 0) of
              Inl e \<Rightarrow> Inl e
            | Inr ptrStr \<Rightarrow> peers_loop sy ps (i + 1) (buffStr @ ps ! nat i @ ptrStr @ ''  ''))
      else Inr buffStr)"
  by pat_completeness auto
termination
  by (relation "measure (\<lambda>(sy, ps, i, buffStr). nat (int (length ps) - i))") auto

declare peers_loop.simps [simp del]

definition createPeersString :: "sys \<Rightarrow> addr list \<Rightarrow> panic + string" where
  "createPeersString sy peersArray' =
     (let peersAreIdentical = identical_loop peersArray' 0 True
      in case (if peersAreIdentical
               then (case peersArray' of [] \<Rightarrow> Inl IndexOutOfRange | p # _ \<Rightarrow> Inr [p])
               else Inr peersArray') of
           Inl e \<Rightarrow> Inl e
         | Inr ps \<Rightarrow>
             (case peers_loop sy ps 0 ''['' of
                Inl e \<Rightarrow> Inl e
              | Inr buffStr \<Rightarrow>
                  if length buffStr < 2 then Inl SliceBoundsOutOfRange
                  else Inr (take (length buffStr - 2) buffStr @ '']'')))"

section \<open>ping and tracert\<close>

text \<open>\<open>Inl\<close> is a panic raised while the line is built; otherwise the boolean returned.\<close>
definition ping :: "sys \<Rightarrow> addr \<Rightarrow> int \<Rightarrow> world \<Rightarrow> (panic + bool) \<times> world" where
  "ping sy dest ttl w =
     (let msg = fst (buildEchoRequest (Marshal sy) (Getpid sy) ICMPTypeEcho MsgLength)
      in case socketExchange sy (network sy ttl) dest msg ttl AttemptsCount w of
           ((durations, peers, t, err), w1) \<Rightarrow>
             if err = None then
               (case t of
                  Some ty \<Rightarrow>
                    if ty = ICMPTypeEchoReply then
                      (case createPeersString sy peers of
                         Inl e \<Rightarrow> (Inl e, w1)
                       | Inr str \<Rightarrow>
                           (Inr True, w1\<lparr>stdout := stdout w1 @ [HopReached ttl durations str]\<rparr>))
                    else if ty = ICMPTypeTimeExceeded then
                      (case createPeersString sy peers of
                         Inl e \<Rightarrow> (Inl e, w1)
                       | Inr str \<Rightarrow>
                           (Inr False, w1\<lparr>stdout := stdout w1 @ [HopTTLExc ttl durations str]\<rparr>))
                    else (Inr False, w1)
                | None \<Rightarrow> (Inr False, w1))
             else (Inr False, w1\<lparr>stdout := stdout w1 @ [HopError ttl]\<rparr>))"

text \<open>How the loop of tracert is left: by \<open>break\<close>, by its condition, or by a panic.\<close>
datatype loop_exit = Broke | RanOut | Crashed panic

text \<open>\<open>for i := 1; i <= MaxTTL; i++ { if ping(destination, i) { break } }\<close>.\<close>
function tracert_loop :: "sys \<Rightarrow> addr \<Rightarrow> int \<Rightarrow> world \<Rightarrow> loop_exit \<times> world" where
  "tracert_loop sy dest i w =
     (if i \<le> MaxTTL
      then (case ping sy dest i w of
              (Inl e, w') \<Rightarrow> (Crashed e, w')
            | (Inr r, w') \<Rightarrow> if r then (Broke, w') else tracert_loop sy dest (i + 1) w')
      else (RanOut, w))"
  by pat_completeness auto
termination
  by (relation "measure (\<lambda>(sy, dest, i, w). nat (MaxTTL + 1 - i))") auto

declare tracert_loop.simps [simp del]

text \<open>\<open>None\<close> is the return after "Invalid address".\<close>
definition tracert :: "sys \<Rightarrow> string \<Rightarrow> world \<Rightarrow> loop_exit option \<times> world" where
  "tracert sy a w =
     (let w0 = w\<lparr>stdout := stdout w @ [Tracing a MaxTTL]\<rparr>
      in case ResolveIPAddr sy a of
           Inl err \<Rightarrow> (None, w0\<lparr>stdout := stdout w0 @ [InvalidAddress a]\<rparr>)
         | Inr destination \<Rightarrow>
             (case tracert_loop sy destination 1 w0 of
                (Crashed e, w') \<Rightarrow> (Some (Crashed e), w')
              | (x, w') \<Rightarrow> (Some x, w'\<lparr>stdout := stdout w' @ [Ended]\<rparr>)))"

section \<open>Notions used to state the properties\<close>

text \<open>The outcome of one attempt taken alone: the error that ends it (failed send,
  partial write, failed or timed-out read, reply that does not parse), or the round-trip
  time, the responder and the parsed reply.\<close>
definition probe_outcome :: "sys \<Rightarrow> byte list \<Rightarrow> attempt_env \<Rightarrow> error + (duration \<times> addr \<times> icmp_message)" where
  "probe_outcome sy b e =
     (case write_result e of
        Inl err \<Rightarrow> Inl err
      | Inr n \<Rightarrow>
          if n \<noteq> int (length b) then Inl (ShortWrite n (int (length b)))
          else (case read_result e of
                  Inl err \<Rightarrow> Inl err
                | Inr (reply, p) \<Rightarrow>
                    (case ParseMessage sy (take 1500 reply) of
                       Inl err \<Rightarrow> Inl err
                     | Inr m \<Rightarrow> Inr (rtt e, p, m))))"

text \<open>The updates one successful pass of the attempt loop makes to its variables.\<close>
definition record_outcome :: "xstate \<Rightarrow> duration \<times> addr \<times> icmp_message \<Rightarrow> xstate" where
  "record_outcome s v =
     (case v of (du, p, m) \<Rightarrow>
        s\<lparr>durationsArray := durationsArray s @ [du], peersArray := peersArray s @ [p],
          peer_v := Some p, msg_v := Some m,
          t_v := (if Type m = ICMPTypeEchoReply then ICMPTypeEchoReply else t_v s)\<rparr>)"

text \<open>The variables before the first attempt: \<open>t\<close> starts as \<open>ipv4.ICMPTypeTimeExceeded\<close>.\<close>
definition init_xstate :: xstate where
  "init_xstate = \<lparr>durationsArray = [], peersArray = [], peer_v = None, msg_v = None,
         t_v = ICMPTypeTimeExceeded\<rparr>"

section \<open>Concrete library functions and networks for the examples\<close>

text \<open>A marshaller and a parser that keep the ICMP header layout (type, code, two checksum
  bytes left zero, then the body), a small reverse-DNS table, and scripted networks.\<close>
definition example_marshal :: marshal where
  "example_marshal m =
     (case Body m of
        Echo i sq d \<Rightarrow>
          ([char_of (Type m), char_of (Code m), CHR 0x00, CHR 0x00,
            char_of (i div 256), char_of i, char_of (sq div 256), char_of sq] @ d, None)
      | RawBody r \<Rightarrow> ([char_of (Type m), char_of (Code m), CHR 0x00, CHR 0x00] @ r, None))"

definition example_parse :: "byte list \<Rightarrow> error + icmp_message" where
  "example_parse bs =
     (if length bs < 4 then Inl (LibError ''message too short'')
      else Inr \<lparr>Type = of_char (bs ! 0), Code = of_char (bs ! 1), Body = RawBody (drop 4 bs)\<rparr>)"

definition example_lookup :: "string \<Rightarrow> string list \<times> error option" where
  "example_lookup a =
     (if a = ''10.0.0.1'' then ([''a.example.''], None)
      else if a = ''10.0.0.2'' then ([''b.example.'', ''c.example.''], None)
      else ([], Some (LibError ''no such host'')))"

definition example_sys :: "(int \<Rightarrow> hop_env) \<Rightarrow> sys" where
  "example_sys net =
     \<lparr>Marshal = example_marshal, Getpid = 4242, ParseMessage = example_parse,
      LookupAddr = example_lookup, ResolveIPAddr = Inr, network = net\<rparr>"

text \<open>An attempt whose send writes \<open>n\<close> bytes and whose reply, of ICMP type \<open>ty\<close>, comes from
  \<open>p\<close> after \<open>du\<close>; an attempt whose read times out; a hop whose attempts follow a list.\<close>
definition replies :: "int \<Rightarrow> icmp_type \<Rightarrow> addr \<Rightarrow> duration \<Rightarrow> attempt_env" where
  "replies n ty p du =
     \<lparr>write_result = Inr n,
      read_result = Inr ([char_of ty, CHR 0x00, CHR 0x00, CHR 0x00], p),
      rtt = du\<rparr>"

definition times_out :: "int \<Rightarrow> attempt_env" where
  "times_out n =
     \<lparr>write_result = Inr n, read_result = Inl (LibError ''i/o timeout''), rtt = MaxWaitSec * Second\<rparr>"

definition scripted :: "attempt_env list \<Rightarrow> hop_env" where
  "scripted es =
     \<lparr>listen_err = None, deadline_err = None,
      attempt = (\<lambda>j. if j < length es then es ! j else times_out 0)\<rparr>"

text \<open>The network that behaves the same for every hop limit.\<close>
definition const_net :: "hop_env \<Rightarrow> int \<Rightarrow> hop_env" where
  "const_net e ttl = e"

text \<open>The world at the start: time zero, nothing done on a socket, nothing printed.\<close>
definition world0 :: world where
  "world0 = \<lparr>clock = 0, sock_ops = [], stdout = []\<rparr>"

definition echo_then_timeout :: hop_env where
  "echo_then_timeout = scripted [replies 5 ICMPTypeEchoReply ''10.0.0.9'' 1000, times_out 5]"

definition three_of :: "icmp_type \<Rightarrow> hop_env" where
  "three_of ty = scripted [replies 5 ty ''10.0.0.9'' Second, replies 5 ty ''10.0.0.9'' Second,
     replies 5 ty ''10.0.0.9'' Second]"

definition mixed_replies :: hop_env where
  "mixed_replies = scripted [replies 5 ICMPTypeTimeExceeded ''10.0.0.7'' 1000,
     replies 5 ICMPTypeEchoReply ''10.0.0.9'' 2000, replies 5 ICMPTypeTimeExceeded ''10.0.0.7'' 3000]"

definition unreachable_net :: "int \<Rightarrow> hop_env" where
  "unreachable_net ttl = scripted [replies 64 ICMPTypeDestinationUnreachable ''10.0.0.9'' Second,
     replies 64 ICMPTypeDestinationUnreachable ''10.0.0.9'' Second,
     replies 64 ICMPTypeDestinationUnreachable ''10.0.0.9'' Second]"

section \<open>The state machine of the specification\<close>

text \<open>Written from the words of the specification, to be compared with \<open>tracert_loop\<close>:
  the states are Sweeping(hopLimit), Reached and Exhausted; a step from Sweeping(h) probes
  hop \<open>h\<close>; an EchoReply leads to Reached; otherwise \<open>h\<close> is incremented, and exceeding
  MaxTTL leads to Exhausted; the terminal states stay. \<open>echo h\<close> says that the probe of hop
  limit \<open>h\<close> is classified EchoReply.\<close>
datatype sweep_state = Sweeping int | Reached | Exhausted

fun sweep_step :: "(int \<Rightarrow> bool) \<Rightarrow> sweep_state \<Rightarrow> sweep_state" where
  "sweep_step echo (Sweeping h) =
     (if echo h then Reached
      else (let h' = h + 1 in if h' > MaxTTL then Exhausted else Sweeping h'))"
| "sweep_step echo Reached = Reached"
| "sweep_step echo Exhausted = Exhausted"

text \<open>The state after \<open>n\<close> steps, and the hop limits probed during them.\<close>
fun sweep_run :: "(int \<Rightarrow> bool) \<Rightarrow> nat \<Rightarrow> sweep_state \<Rightarrow> sweep_state" where
  "sweep_run echo 0 s = s"
| "sweep_run echo (Suc n) s = sweep_run echo n (sweep_step echo s)"

fun sweep_probes :: "(int \<Rightarrow> bool) \<Rightarrow> nat \<Rightarrow> sweep_state \<Rightarrow> int list" where
  "sweep_probes echo (Suc n) (Sweeping h) = h # sweep_probes echo n (sweep_step echo (Sweeping h))"
| "sweep_probes echo n s = []"

text \<open>The terminal state a way of leaving the loop stands for, and the hop limit a printed
  line reports.\<close>
fun exit_state :: "loop_exit \<Rightarrow> sweep_state option" where
  "exit_state Broke = Some Reached"
| "exit_state RanOut = Some Exhausted"
| "exit_state (Crashed e) = None"

fun hop_no :: "line \<Rightarrow> int option" where
  "hop_no (HopReached h ds str) = Some h"
| "hop_no (HopTTLExc h ds str) = Some h"
| "hop_no (HopError h) = Some h"
| "hop_no l = None"

section \<open>Notions used to state the properties of ping and tracert\<close>

text \<open>Reverse DNS returns no empty name (\<open>net.LookupAddr\<close> returns domain names that end in
  a dot).\<close>
definition names_ok :: "sys \<Rightarrow> bool" where
  "names_ok sy = (\<forall>a. [] \<notin> set (fst (LookupAddr sy a)))"

text \<open>The probe ping sends, and the error its call of socketExchange returns.\<close>
definition probe_bytes :: "sys \<Rightarrow> byte list" where
  "probe_bytes sy = fst (buildEchoRequest (Marshal sy) (Getpid sy) ICMPTypeEcho MsgLength)"

definition exchange_error :: "sys \<Rightarrow> addr \<Rightarrow> int \<Rightarrow> world \<Rightarrow> error option" where
  "exchange_error sy dest ttl w =
     snd (snd (snd (fst (socketExchange sy (network sy ttl) dest (probe_bytes sy) ttl AttemptsCount w))))"

text \<open>The classification that call of socketExchange returns.\<close>
definition exchange_class :: "sys \<Rightarrow> addr \<Rightarrow> int \<Rightarrow> world \<Rightarrow> icmp_type option" where
  "exchange_class sy dest ttl w =
     fst (snd (snd (fst (socketExchange sy (network sy ttl) dest (probe_bytes sy) ttl AttemptsCount w))))"

text \<open>The probe of hop limit \<open>h\<close> is classified EchoReply: the exchange for that hop limit
  returns no error and the classification EchoReply. (The result of the exchange does not
  depend on the world it starts in, see \<open>hop_reached_world\<close>.)\<close>
definition hop_reached :: "sys \<Rightarrow> addr \<Rightarrow> int \<Rightarrow> bool" where
  "hop_reached sy dest h =
     (exchange_error sy dest h world0 = None
      \<and> exchange_class sy dest h world0 = Some ICMPTypeEchoReply)"

text \<open>Every attempt of every hop sends the whole probe and gets no reply: its read fails.\<close>
definition all_time_out :: "sys \<Rightarrow> bool" where
  "all_time_out sy =
     (\<forall>ttl. listen_err (network sy ttl) = None \<and> deadline_err (network sy ttl) = None
        \<and> (\<forall>j. write_result (attempt (network sy ttl) j) = Inr (int (length (probe_bytes sy)))
              \<and> isl (read_result (attempt (network sy ttl) j))))"

text \<open>A network whose first hop answers TimeExceeded and whose second hop is the
  destination; a network that never answers.\<close>
definition two_hop_net :: "int \<Rightarrow> hop_env" where
  "two_hop_net ttl =
     (if ttl = 1 then scripted [replies 64 ICMPTypeTimeExceeded ''10.0.0.1'' Second,
        replies 64 ICMPTypeTimeExceeded ''10.0.0.1'' Second,
        replies 64 ICMPTypeTimeExceeded ''10.0.0.1'' Second]
      else if ttl = 2 then scripted [replies 64 ICMPTypeEchoReply ''10.0.0.2'' Second,
        replies 64 ICMPTypeEchoReply ''10.0.0.2'' Second,
        replies 64 ICMPTypeEchoReply ''10.0.0.2'' Second]
      else scripted [])"

definition silent_net :: "int \<Rightarrow> hop_env" where
  "silent_net ttl = \<lparr>listen_err = None, deadline_err = None, attempt = (\<lambda>j. times_out 64)\<rparr>"

section \<open>Properties of the packet builder\<close>

lemma write_chunks_eq:
  "write_chunks count buf = buf @ concat (replicate (nat count) dataChunk)"
proof (induction count buf rule: write_chunks.induct)
  case (1 count buf)
  show ?case
  proof (cases "count > 0")
    case True
    then have n: "nat count = Suc (nat (count - 1))" by simp
    have "write_chunks count buf = write_chunks (count - 1) (buf @ dataChunk)"
      using True by (simp add: write_chunks.simps [of count])
    also have "\<dots> = (buf @ dataChunk) @ concat (replicate (nat (count - 1)) dataChunk)"
      using 1 True by simp
    finally show ?thesis by (simp add: n)
  next
    case False
    then show ?thesis by (simp add: write_chunks.simps [of count])
  qed
qed

lemma length_concat_replicate:
  "length (concat (replicate n xs)) = n * length xs"
  by (induction n) simp_all

lemma concat_replicate_snoc:
  "concat (replicate (Suc n) xs) = concat (replicate n xs) @ xs"
  by (induction n) simp_all

lemma nth_concat_replicate:
  "i < n * length xs \<Longrightarrow> concat (replicate n xs) ! i = xs ! (i mod length xs)"
proof (induction n arbitrary: i)
  case 0
  then show ?case by simp
next
  case (Suc n)
  show ?case
  proof (cases "i < length xs")
    case True
    then show ?thesis by (simp add: nth_append)
  next
    case False
    then have "i - length xs < n * length xs" using Suc.prems by simp
    then have "concat (replicate n xs) ! (i - length xs) = xs ! ((i - length xs) mod length xs)"
      by (rule Suc.IH)
    moreover have "(i - length xs) mod length xs = i mod length xs"
      using False by (simp add: le_mod_geq)
    ultimately show ?thesis using False by (simp add: nth_append)
  qed
qed

lemma echo_data_eq:
  assumes "0 \<le> S"
  shows "echo_data S = concat (replicate (nat S div 4) dataChunk) @ take (nat S mod 4) dataChunk"
proof -
  have q: "S sdiv 4 = S div 4" using assms by (simp add: signed_divide_int_def sgn_if)
  have n: "nat (S div 4) = nat S div 4" using assms by (simp add: nat_div_distrib)
  have len: "length dataChunk = 4" by (simp add: dataChunk_def)
  have d: "S - int (nat S div 4 * 4) = int (nat S mod 4)"
  proof -
    have "int (nat S div 4 * 4) = S div 4 * 4" using assms by (simp add: of_nat_div)
    moreover have "int (nat S mod 4) = S mod 4" using assms by (simp add: zmod_int)
    ultimately show ?thesis by (simp add: minus_div_mult_eq_mod)
  qed
  have buf: "write_chunks (S sdiv int (length dataChunk)) [] = concat (replicate (nat S div 4) dataChunk)"
    by (simp add: write_chunks_eq q n len)
  have diff: "S - int (length (concat (replicate (nat S div 4) dataChunk))) = int (nat S mod 4)"
    using d by (simp only: length_concat_replicate len)
  show ?thesis
    unfolding echo_data_def Let_def buf diff by simp
qed

text \<open>
  Claim C7. For every payload size \<open>S \<ge> 0\<close> the data field that buildEchoRequest gives the
  Echo message has exactly \<open>S\<close> bytes, is the pattern "DATA" repeated with the last
  repetition cut to fit (byte \<open>i\<close> is byte \<open>i mod 4\<close> of the pattern), and depends on the
  size alone: neither the process id nor the message type changes it.
\<close>
theorem buildEchoRequest_payload:
  assumes "0 \<le> S"
  shows "buildEchoRequest marshal pid t S = marshal (echo_message pid t S)
       \<and> length (Data (Body (echo_message pid t S))) = nat S
       \<and> Data (Body (echo_message pid t S))
           = take (nat S) (concat (replicate (nat S div 4 + 1) ''DATA''))
       \<and> (\<forall>i < nat S. Data (Body (echo_message pid t S)) ! i = ''DATA'' ! (i mod 4))
       \<and> Data (Body (echo_message pid' t' S)) = Data (Body (echo_message pid t S))"
proof -
  let ?q = "nat S div 4" and ?r = "nat S mod 4"
  have len4: "length dataChunk = 4" by (simp add: dataChunk_def)
  have D: "Data (Body (echo_message pid t S)) = concat (replicate ?q dataChunk) @ take ?r dataChunk"
    using assms by (simp add: echo_message_def echo_data_eq)
  have L: "length (Data (Body (echo_message pid t S))) = nat S"
  proof -
    have "length (Data (Body (echo_message pid t S))) = ?q * 4 + ?r"
      by (simp add: D length_concat_replicate len4)
    then show ?thesis by simp
  qed
  have T: "Data (Body (echo_message pid t S)) = take (nat S) (concat (replicate (?q + 1) dataChunk))"
  proof -
    have e: "nat S = length (concat (replicate ?q dataChunk)) + ?r"
      by (simp add: length_concat_replicate len4)
    have "take (length (concat (replicate ?q dataChunk)) + ?r) (concat (replicate ?q dataChunk) @ dataChunk)
        = concat (replicate ?q dataChunk) @ take ?r dataChunk"
      by simp
    then have "take (nat S) (concat (replicate ?q dataChunk) @ dataChunk)
        = concat (replicate ?q dataChunk) @ take ?r dataChunk"
      by (simp only: e [symmetric])
    moreover have "concat (replicate (?q + 1) dataChunk) = concat (replicate ?q dataChunk) @ dataChunk"
      using concat_replicate_snoc [of ?q dataChunk] by (simp only: Suc_eq_plus1)
    ultimately show ?thesis by (simp only: D)
  qed
  have N: "\<forall>i < nat S. Data (Body (echo_message pid t S)) ! i = dataChunk ! (i mod 4)"
  proof (intro allI impI)
    fix i assume i: "i < nat S"
    have "i < (?q + 1) * length dataChunk" using i by (simp add: len4)
    then have "concat (replicate (?q + 1) dataChunk) ! i = dataChunk ! (i mod 4)"
      using nth_concat_replicate [of i "?q + 1" dataChunk] by (simp add: len4)
    then show "Data (Body (echo_message pid t S)) ! i = dataChunk ! (i mod 4)"
      using i by (simp only: T nth_take)
  qed
  have P: "Data (Body (echo_message pid' t' S)) = Data (Body (echo_message pid t S))"
    by (simp add: echo_message_def)
  show ?thesis
    using L T N P by (simp add: buildEchoRequest_def dataChunk_def)
qed

theorem buildEchoRequest_payload_witness:
  "(0::int) \<le> 10
   \<and> length (Data (Body (echo_message 4242 ICMPTypeEcho 10))) = 10
   \<and> Data (Body (echo_message 4242 ICMPTypeEcho 10)) = ''DATADATADA''
   \<and> Data (Body (echo_message 7 ICMPTypeEchoReply 10)) = ''DATADATADA''"
proof -
  have h: "(0::int) \<le> 10" by simp
  have r: "replicate 3 ''DATA'' = [''DATA'', ''DATA'', ''DATA'']"
    by (simp add: numeral_3_eq_3)
  show ?thesis
    using buildEchoRequest_payload [OF h, of example_marshal 4242 ICMPTypeEcho 7 ICMPTypeEchoReply]
    by (simp add: r)
qed

section \<open>Properties of the exchange\<close>

lemma attempt_body_Inr:
  assumes "probe_outcome sy b e = Inr v"
  shows "attempt_body sy e d b s w =
           (Inr (record_outcome s v),
            w\<lparr>clock := clock w + rtt e, sock_ops := sock_ops w @ [OpWriteTo d, OpReadFrom]\<rparr>)"
proof -
  obtain n where n: "write_result e = Inr n" "n = int (length b)"
    using assms by (cases "write_result e") (simp_all add: probe_outcome_def split: if_splits)
  obtain reply p where r: "read_result e = Inr (reply, p)"
    using assms n by (cases "read_result e") (auto simp add: probe_outcome_def)
  obtain m where m: "ParseMessage sy (take 1500 reply) = Inr m"
    using assms n r by (cases "ParseMessage sy (take 1500 reply)") (simp_all add: probe_outcome_def)
  have v: "v = (rtt e, p, m)"
    using assms n r m by (simp add: probe_outcome_def)
  show ?thesis
    by (simp add: attempt_body_def n r m v record_outcome_def Let_def)
qed

lemma attempt_body_Inl:
  assumes "probe_outcome sy b e = Inl err"
  shows "\<exists>xs. attempt_body sy e d b s w =
           (Inl ([0], [], None, Some err),
            w\<lparr>clock := clock w + (if xs = [] then 0 else rtt e), sock_ops := sock_ops w @ OpWriteTo d # xs\<rparr>)
          \<and> (xs = [] \<or> xs = [OpReadFrom])"
proof (cases "write_result e")
  case (Inl x)
  then have "err = x" using assms by (simp add: probe_outcome_def)
  then have "attempt_body sy e d b s w =
           (Inl ([0], [], None, Some err),
            w\<lparr>clock := clock w + (if [] = ([]::op list) then 0 else rtt e), sock_ops := sock_ops w @ OpWriteTo d # []\<rparr>)"
    using Inl by (simp add: attempt_body_def Let_def)
  then show ?thesis by blast
next
  case (Inr n)
  show ?thesis
  proof (cases "n = int (length b)")
    case False
    then have "err = ShortWrite n (int (length b))" using assms Inr by (simp add: probe_outcome_def)
    then have "attempt_body sy e d b s w =
           (Inl ([0], [], None, Some err),
            w\<lparr>clock := clock w + (if [] = ([]::op list) then 0 else rtt e), sock_ops := sock_ops w @ OpWriteTo d # []\<rparr>)"
      using Inr False by (simp add: attempt_body_def Let_def)
    then show ?thesis by blast
  next
    case True
    have "attempt_body sy e d b s w =
           (Inl ([0], [], None, Some err),
            w\<lparr>clock := clock w + (if [OpReadFrom] = [] then 0 else rtt e), sock_ops := sock_ops w @ OpWriteTo d # [OpReadFrom]\<rparr>)"
    proof (cases "read_result e")
      case (Inl x)
      then show ?thesis using assms Inr True by (simp add: attempt_body_def probe_outcome_def Let_def)
    next
      case r: (Inr rp)
      obtain reply p where rp: "rp = (reply, p)" by (cases rp)
      show ?thesis
      proof (cases "ParseMessage sy (take 1500 reply)")
        case (Inl x)
        then show ?thesis using assms Inr True r rp by (simp add: attempt_body_def probe_outcome_def Let_def)
      next
        case (Inr m)
        then show ?thesis using assms \<open>write_result e = Inr n\<close> True r rp by (simp add: probe_outcome_def)
      qed
    qed
    then show ?thesis by blast
  qed
qed

lemma attempt_body_cases:
  obtains (ok) v where "probe_outcome sy b e = Inr v"
  | (fail) err where "probe_outcome sy b e = Inl err"
  by (cases "probe_outcome sy b e") auto

lemma exchange_loop_ok:
  assumes "0 \<le> i"
    and "\<forall>j. nat i \<le> j \<and> j < nat attempts \<longrightarrow> probe_outcome sy b (env j) = Inr (v j)"
  shows "exchange_loop sy env d b attempts i s w =
           (Inr (foldl record_outcome s (map v [nat i..<nat attempts])),
            w\<lparr>clock := clock w + sum_list (map (\<lambda>j. rtt (env j)) [nat i..<nat attempts]),
              sock_ops := sock_ops w @ concat (replicate (nat (attempts - i)) [OpWriteTo d, OpReadFrom])\<rparr>)"
  using assms
proof (induction sy env d b attempts i s w rule: exchange_loop.induct)
  case (1 sy env d b attempts i s w)
  show ?case
  proof (cases "i < attempts")
    case False
    then have "nat (attempts - i) = 0" "[nat i..<nat attempts] = []" by simp_all
    then show ?thesis using False by (simp add: exchange_loop.simps [of _ _ _ _ attempts i])
  next
    case True
    let ?s1 = "record_outcome s (v (nat i))"
    let ?w1 = "w\<lparr>clock := clock w + rtt (env (nat i)), sock_ops := sock_ops w @ [OpWriteTo d, OpReadFrom]\<rparr>"
    have lt: "nat i < nat attempts" using True "1.prems"(1) by simp
    have po: "probe_outcome sy b (env (nat i)) = Inr (v (nat i))"
      using "1.prems"(2) lt by simp
    have ab: "attempt_body sy (env (nat i)) d b s w = (Inr ?s1, ?w1)"
      by (rule attempt_body_Inr [OF po])
    have n1: "nat (i + 1) = Suc (nat i)" using "1.prems"(1) by simp
    have up: "[nat i..<nat attempts] = nat i # [nat (i + 1)..<nat attempts]"
      using lt by (simp add: upt_conv_Cons n1)
    have rep: "nat (attempts - i) = Suc (nat (attempts - (i + 1)))" using True by simp
    have p2: "\<forall>j. nat (i + 1) \<le> j \<and> j < nat attempts \<longrightarrow> probe_outcome sy b (env j) = Inr (v j)"
      using "1.prems"(2) n1 by simp
    have ih: "exchange_loop sy env d b attempts (i + 1) ?s1 ?w1 =
           (Inr (foldl record_outcome ?s1 (map v [nat (i + 1)..<nat attempts])),
            ?w1\<lparr>clock := clock ?w1 + sum_list (map (\<lambda>j. rtt (env j)) [nat (i + 1)..<nat attempts]),
              sock_ops := sock_ops ?w1 @ concat (replicate (nat (attempts - (i + 1))) [OpWriteTo d, OpReadFrom])\<rparr>)"
      using "1.IH" [OF True ab [symmetric] refl] "1.prems"(1) p2 by simp
    have "exchange_loop sy env d b attempts i s w = exchange_loop sy env d b attempts (i + 1) ?s1 ?w1"
      using True ab by (simp add: exchange_loop.simps [of _ _ _ _ attempts i])
    also note ih
    finally show ?thesis
      by (simp add: up rep add.assoc)
  qed
qed

lemma exchange_loop_fail:
  assumes "0 \<le> i" and "nat i \<le> k" and "k < nat attempts"
    and "\<forall>j. nat i \<le> j \<and> j < k \<longrightarrow> probe_outcome sy b (env j) = Inr (v j)"
    and "probe_outcome sy b (env k) = Inl err"
  shows "\<exists>xs w'. exchange_loop sy env d b attempts i s w = (Inl ([0], [], None, Some err), w')
           \<and> sock_ops w' = sock_ops w @ concat (replicate (k - nat i) [OpWriteTo d, OpReadFrom])
                              @ OpWriteTo d # xs
           \<and> (xs = [] \<or> xs = [OpReadFrom]) \<and> stdout w' = stdout w"
  using assms
proof (induction sy env d b attempts i s w rule: exchange_loop.induct)
  case (1 sy env d b attempts i s w)
  have lt: "i < attempts" using "1.prems"(1,2,3) by linarith
  have n1: "nat (i + 1) = Suc (nat i)" using "1.prems"(1) by simp
  show ?case
  proof (cases "k = nat i")
    case True
    obtain xs where xs: "attempt_body sy (env (nat i)) d b s w =
           (Inl ([0], [], None, Some err),
            w\<lparr>clock := clock w + (if xs = [] then 0 else rtt (env (nat i))),
              sock_ops := sock_ops w @ OpWriteTo d # xs\<rparr>)" "xs = [] \<or> xs = [OpReadFrom]"
      using attempt_body_Inl [of sy b "env (nat i)" err d s w] "1.prems"(5) True by blast
    have "exchange_loop sy env d b attempts i s w = (Inl ([0], [], None, Some err),
            w\<lparr>clock := clock w + (if xs = [] then 0 else rtt (env (nat i))),
              sock_ops := sock_ops w @ OpWriteTo d # xs\<rparr>)"
      using lt xs(1) by (simp add: exchange_loop.simps [of _ _ _ _ attempts i])
    then show ?thesis using xs(2) True by simp
  next
    case False
    then have k: "nat (i + 1) \<le> k" using "1.prems"(2) n1 by simp
    let ?s1 = "record_outcome s (v (nat i))"
    let ?w1 = "w\<lparr>clock := clock w + rtt (env (nat i)), sock_ops := sock_ops w @ [OpWriteTo d, OpReadFrom]\<rparr>"
    have po: "probe_outcome sy b (env (nat i)) = Inr (v (nat i))"
      using "1.prems"(2,4) False by simp
    have ab: "attempt_body sy (env (nat i)) d b s w = (Inr ?s1, ?w1)"
      by (rule attempt_body_Inr [OF po])
    have p4: "\<forall>j. nat (i + 1) \<le> j \<and> j < k \<longrightarrow> probe_outcome sy b (env j) = Inr (v j)"
      using "1.prems"(4) n1 by simp
    have i1: "0 \<le> i + 1" using "1.prems"(1) by simp
    obtain xs w' where ih: "exchange_loop sy env d b attempts (i + 1) ?s1 ?w1 = (Inl ([0], [], None, Some err), w')"
      "sock_ops w' = sock_ops ?w1 @ concat (replicate (k - nat (i + 1)) [OpWriteTo d, OpReadFrom]) @ OpWriteTo d # xs"
      "xs = [] \<or> xs = [OpReadFrom]" "stdout w' = stdout ?w1"
      using "1.IH" [OF lt ab [symmetric] refl i1 k "1.prems"(3) p4 "1.prems"(5)] by blast
    have rep: "k - nat i = Suc (k - nat (i + 1))" using k n1 by simp
    have "exchange_loop sy env d b attempts i s w = exchange_loop sy env d b attempts (i + 1) ?s1 ?w1"
      using lt ab by (simp add: exchange_loop.simps [of _ _ _ _ attempts i])
    then show ?thesis using ih by (simp add: rep)
  qed
qed

lemma foldl_record_durations:
  "durationsArray (foldl record_outcome s vs) = durationsArray s @ map fst vs"
  by (induction vs arbitrary: s) (simp_all add: record_outcome_def split: prod.splits)

lemma foldl_record_peers:
  "peersArray (foldl record_outcome s vs) = peersArray s @ map (\<lambda>v. fst (snd v)) vs"
  by (induction vs arbitrary: s) (simp_all add: record_outcome_def split: prod.splits)

lemma foldl_record_type:
  "t_v (foldl record_outcome s vs) =
     (if \<exists>v \<in> set vs. Type (snd (snd v)) = ICMPTypeEchoReply then ICMPTypeEchoReply else t_v s)"
  by (induction vs arbitrary: s) (auto simp add: record_outcome_def split: prod.splits)

lemma exchange_loop_world_indep:
  "fst (exchange_loop sy env d b attempts i s w) = fst (exchange_loop sy env d b attempts i s w2)"
proof (induction sy env d b attempts i s w arbitrary: w2 rule: exchange_loop.induct)
  case (1 sy env d b attempts i s w)
  show ?case
  proof (cases "i < attempts")
    case False
    then show ?thesis by (simp add: exchange_loop.simps [of _ _ _ _ attempts i])
  next
    case True
    show ?thesis
    proof (cases rule: attempt_body_cases [of sy b "env (nat i)"])
      case (ok v)
      let ?s1 = "record_outcome s v"
      let ?w1 = "w\<lparr>clock := clock w + rtt (env (nat i)), sock_ops := sock_ops w @ [OpWriteTo d, OpReadFrom]\<rparr>"
      let ?w2 = "w2\<lparr>clock := clock w2 + rtt (env (nat i)), sock_ops := sock_ops w2 @ [OpWriteTo d, OpReadFrom]\<rparr>"
      have ab: "attempt_body sy (env (nat i)) d b s w = (Inr ?s1, ?w1)"
        by (rule attempt_body_Inr [OF ok])
      have ab2: "attempt_body sy (env (nat i)) d b s w2 = (Inr ?s1, ?w2)"
        by (rule attempt_body_Inr [OF ok])
      have "fst (exchange_loop sy env d b attempts (i + 1) ?s1 ?w1)
          = fst (exchange_loop sy env d b attempts (i + 1) ?s1 ?w2)"
        by (rule "1.IH" [OF True ab [symmetric] refl])
      then show ?thesis
        using True ab ab2 by (simp add: exchange_loop.simps [of _ _ _ _ attempts i])
    next
      case (fail err)
      obtain xs where a1: "attempt_body sy (env (nat i)) d b s w =
           (Inl ([0], [], None, Some err),
            w\<lparr>clock := clock w + (if xs = [] then 0 else rtt (env (nat i))),
              sock_ops := sock_ops w @ OpWriteTo d # xs\<rparr>)"
        using attempt_body_Inl [OF fail] by blast
      obtain ys where a2: "attempt_body sy (env (nat i)) d b s w2 =
           (Inl ([0], [], None, Some err),
            w2\<lparr>clock := clock w2 + (if ys = [] then 0 else rtt (env (nat i))),
              sock_ops := sock_ops w2 @ OpWriteTo d # ys\<rparr>)"
        using attempt_body_Inl [OF fail] by blast
      show ?thesis
        using True a1 a2 by (simp add: exchange_loop.simps [of _ _ _ _ attempts i])
    qed
  qed
qed

lemma exchange_loop_Inr:
  assumes "exchange_loop sy env d b attempts i s w = (Inr s', w')"
  shows "length (durationsArray s') = length (durationsArray s) + nat (attempts - i)
       \<and> length (peersArray s') = length (peersArray s) + nat (attempts - i)
       \<and> (t_v s' = t_v s \<or> t_v s' = ICMPTypeEchoReply)"
  using assms
proof (induction sy env d b attempts i s w rule: exchange_loop.induct)
  case (1 sy env d b attempts i s w)
  show ?case
  proof (cases "i < attempts")
    case False
    then show ?thesis using "1.prems" by (simp add: exchange_loop.simps [of _ _ _ _ attempts i])
  next
    case True
    show ?thesis
    proof (cases rule: attempt_body_cases [of sy b "env (nat i)"])
      case (ok v)
      let ?s1 = "record_outcome s v"
      let ?w1 = "w\<lparr>clock := clock w + rtt (env (nat i)), sock_ops := sock_ops w @ [OpWriteTo d, OpReadFrom]\<rparr>"
      have ab: "attempt_body sy (env (nat i)) d b s w = (Inr ?s1, ?w1)"
        by (rule attempt_body_Inr [OF ok])
      have "exchange_loop sy env d b attempts (i + 1) ?s1 ?w1 = (Inr s', w')"
        using True ab "1.prems" by (simp add: exchange_loop.simps [of _ _ _ _ attempts i])
      then have ih: "length (durationsArray s') = length (durationsArray ?s1) + nat (attempts - (i + 1))
       \<and> length (peersArray s') = length (peersArray ?s1) + nat (attempts - (i + 1))
       \<and> (t_v s' = t_v ?s1 \<or> t_v s' = ICMPTypeEchoReply)"
        by (rule "1.IH" [OF True ab [symmetric] refl])
      have rep: "nat (attempts - i) = Suc (nat (attempts - (i + 1)))" using True by simp
      obtain du p m where v: "v = (du, p, m)" by (cases v)
      show ?thesis
        using ih by (auto simp add: rep v record_outcome_def)
    next
      case (fail err)
      obtain xs where a1: "attempt_body sy (env (nat i)) d b s w =
           (Inl ([0], [], None, Some err),
            w\<lparr>clock := clock w + (if xs = [] then 0 else rtt (env (nat i))),
              sock_ops := sock_ops w @ OpWriteTo d # xs\<rparr>)"
        using attempt_body_Inl [OF fail] by blast
      show ?thesis
        using True a1 "1.prems" by (simp add: exchange_loop.simps [of _ _ _ _ attempts i])
    qed
  qed
qed

lemma exchange_body_unfold:
  assumes "deadline_err env = None"
  shows "exchange_body sy env d b ttl attempts w =
     (case exchange_loop sy (attempt env) d b attempts 0 init_xstate
             (w\<lparr>sock_ops := sock_ops w @ [OpSetReadDeadline (clock w + MaxWaitSec * Second), OpSetTTL ttl]\<rparr>) of
        (Inl r, w3) \<Rightarrow> (r, w3)
      | (Inr s, w3) \<Rightarrow> (classify s, w3))"
  using assms by (simp add: exchange_body_def init_xstate_def Let_def)

lemma socketExchange_unfold:
  assumes "listen_err env = None" and "deadline_err env = None"
  shows "socketExchange sy env d b ttl attempts w =
     (case exchange_loop sy (attempt env) d b attempts 0 init_xstate
             (w\<lparr>sock_ops := sock_ops w @ [OpListen, OpSetReadDeadline (clock w + MaxWaitSec * Second), OpSetTTL ttl]\<rparr>) of
        (Inl r, w3) \<Rightarrow> (r, w3\<lparr>sock_ops := sock_ops w3 @ [OpClose]\<rparr>)
      | (Inr s, w3) \<Rightarrow> (classify s, w3\<lparr>sock_ops := sock_ops w3 @ [OpClose]\<rparr>))"
  using assms
  by (simp add: socketExchange_def exchange_body_unfold Let_def split: prod.splits sum.splits)

lemma classify_init_fold:
  "classify (foldl record_outcome init_xstate vs) =
     (map fst vs, map (\<lambda>v. fst (snd v)) vs,
      Some (if \<exists>v \<in> set vs. Type (snd (snd v)) = ICMPTypeEchoReply
            then ICMPTypeEchoReply else ICMPTypeTimeExceeded), None)"
  by (simp add: classify_def foldl_record_durations foldl_record_peers foldl_record_type init_xstate_def)

lemma socketExchange_ok:
  assumes "listen_err env = None" and "deadline_err env = None"
    and "\<forall>j < nat attempts. probe_outcome sy b (attempt env j) = Inr (v j)"
  shows "socketExchange sy env d b ttl attempts w =
     ((map (\<lambda>j. fst (v j)) [0..<nat attempts], map (\<lambda>j. fst (snd (v j))) [0..<nat attempts],
       Some (if \<exists>j < nat attempts. Type (snd (snd (v j))) = ICMPTypeEchoReply
             then ICMPTypeEchoReply else ICMPTypeTimeExceeded), None),
      w\<lparr>clock := clock w + sum_list (map (\<lambda>j. rtt (attempt env j)) [0..<nat attempts]),
        sock_ops := sock_ops w @ [OpListen, OpSetReadDeadline (clock w + MaxWaitSec * Second), OpSetTTL ttl]
                     @ concat (replicate (nat attempts) [OpWriteTo d, OpReadFrom]) @ [OpClose]\<rparr>)"
proof -
  have a: "\<forall>j. nat 0 \<le> j \<and> j < nat attempts \<longrightarrow> probe_outcome sy b (attempt env j) = Inr (v j)"
    using assms(3) by simp
  have e: "(\<exists>x \<in> set (map v [0..<nat attempts]). Type (snd (snd x)) = ICMPTypeEchoReply)
        = (\<exists>j < nat attempts. Type (snd (snd (v j))) = ICMPTypeEchoReply)"
    by auto
  show ?thesis
    unfolding socketExchange_unfold [OF assms(1,2)]
      exchange_loop_ok [of 0 attempts sy b "attempt env" v, OF order_refl a]
    by (simp add: classify_init_fold e o_def del: set_map)
qed

lemma socketExchange_fail:
  assumes "listen_err env = None" and "deadline_err env = None"
    and "k < nat attempts"
    and "\<forall>j < k. probe_outcome sy b (attempt env j) = Inr (v j)"
    and "probe_outcome sy b (attempt env k) = Inl err"
  shows "\<exists>xs w'. socketExchange sy env d b ttl attempts w = (([0], [], None, Some err), w')
     \<and> sock_ops w' = sock_ops w @ [OpListen, OpSetReadDeadline (clock w + MaxWaitSec * Second), OpSetTTL ttl]
                     @ concat (replicate k [OpWriteTo d, OpReadFrom]) @ OpWriteTo d # xs @ [OpClose]
     \<and> (xs = [] \<or> xs = [OpReadFrom]) \<and> stdout w' = stdout w"
proof -
  let ?w = "w\<lparr>sock_ops := sock_ops w @ [OpListen, OpSetReadDeadline (clock w + MaxWaitSec * Second), OpSetTTL ttl]\<rparr>"
  have a: "\<forall>j. nat 0 \<le> j \<and> j < k \<longrightarrow> probe_outcome sy b (attempt env j) = Inr (v j)"
    using assms(4) by simp
  obtain xs w' where l: "exchange_loop sy (attempt env) d b attempts 0 init_xstate ?w = (Inl ([0], [], None, Some err), w')"
    "sock_ops w' = sock_ops ?w @ concat (replicate (k - nat 0) [OpWriteTo d, OpReadFrom]) @ OpWriteTo d # xs"
    "xs = [] \<or> xs = [OpReadFrom]" "stdout w' = stdout ?w"
    using exchange_loop_fail [of 0 k attempts sy b "attempt env" v err d init_xstate ?w] assms(3,5) a
    by auto
  have "socketExchange sy env d b ttl attempts w = (([0], [], None, Some err), w'\<lparr>sock_ops := sock_ops w' @ [OpClose]\<rparr>)"
    unfolding socketExchange_unfold [OF assms(1,2)] l(1) by simp
  then show ?thesis using l(2,3,4) by simp
qed

lemma exchange_loop_Inl:
  assumes "exchange_loop sy env d b attempts i s w = (Inl r, w')"
  shows "\<exists>err. r = ([0], [], None, Some err)"
  using assms
proof (induction sy env d b attempts i s w rule: exchange_loop.induct)
  case (1 sy env d b attempts i s w)
  show ?case
  proof (cases "i < attempts")
    case False
    then show ?thesis using "1.prems" by (simp add: exchange_loop.simps [of _ _ _ _ attempts i])
  next
    case True
    show ?thesis
    proof (cases rule: attempt_body_cases [of sy b "env (nat i)"])
      case (ok v)
      let ?s1 = "record_outcome s v"
      let ?w1 = "w\<lparr>clock := clock w + rtt (env (nat i)), sock_ops := sock_ops w @ [OpWriteTo d, OpReadFrom]\<rparr>"
      have ab: "attempt_body sy (env (nat i)) d b s w = (Inr ?s1, ?w1)"
        by (rule attempt_body_Inr [OF ok])
      have "exchange_loop sy env d b attempts (i + 1) ?s1 ?w1 = (Inl r, w')"
        using True ab "1.prems" by (simp add: exchange_loop.simps [of _ _ _ _ attempts i])
      then show ?thesis
        by (rule "1.IH" [OF True ab [symmetric] refl])
    next
      case (fail err)
      obtain xs where a1: "attempt_body sy (env (nat i)) d b s w =
           (Inl ([0], [], None, Some err),
            w\<lparr>clock := clock w + (if xs = [] then 0 else rtt (env (nat i))),
              sock_ops := sock_ops w @ OpWriteTo d # xs\<rparr>)"
        using attempt_body_Inl [OF fail] by blast
      show ?thesis
        using True a1 "1.prems" by (auto simp add: exchange_loop.simps [of _ _ _ _ attempts i])
    qed
  qed
qed

lemma exchange_loop_effects:
  "\<exists>xs. sock_ops (snd (exchange_loop sy env d b attempts i s w)) = sock_ops w @ xs
        \<and> set xs \<subseteq> {OpWriteTo d, OpReadFrom}
        \<and> stdout (snd (exchange_loop sy env d b attempts i s w)) = stdout w"
proof (induction sy env d b attempts i s w rule: exchange_loop.induct)
  case (1 sy env d b attempts i s w)
  show ?case
  proof (cases "i < attempts")
    case False
    then show ?thesis by (simp add: exchange_loop.simps [of _ _ _ _ attempts i])
  next
    case True
    show ?thesis
    proof (cases rule: attempt_body_cases [of sy b "env (nat i)"])
      case (ok v)
      let ?s1 = "record_outcome s v"
      let ?w1 = "w\<lparr>clock := clock w + rtt (env (nat i)), sock_ops := sock_ops w @ [OpWriteTo d, OpReadFrom]\<rparr>"
      have ab: "attempt_body sy (env (nat i)) d b s w = (Inr ?s1, ?w1)"
        by (rule attempt_body_Inr [OF ok])
      have eq: "exchange_loop sy env d b attempts i s w = exchange_loop sy env d b attempts (i + 1) ?s1 ?w1"
        using True ab by (simp add: exchange_loop.simps [of _ _ _ _ attempts i])
      obtain xs where xs: "sock_ops (snd (exchange_loop sy env d b attempts (i + 1) ?s1 ?w1)) = sock_ops ?w1 @ xs"
        "set xs \<subseteq> {OpWriteTo d, OpReadFrom}"
        "stdout (snd (exchange_loop sy env d b attempts (i + 1) ?s1 ?w1)) = stdout ?w1"
        using "1.IH" [OF True ab [symmetric] refl] by blast
      have "sock_ops (snd (exchange_loop sy env d b attempts i s w)) = sock_ops w @ ([OpWriteTo d, OpReadFrom] @ xs)"
        using xs(1) eq by simp
      moreover have "set ([OpWriteTo d, OpReadFrom] @ xs) \<subseteq> {OpWriteTo d, OpReadFrom}"
        using xs(2) by simp
      moreover have "stdout (snd (exchange_loop sy env d b attempts i s w)) = stdout w"
        using xs(3) eq by simp
      ultimately show ?thesis by blast
    next
      case (fail err)
      obtain xs where a1: "attempt_body sy (env (nat i)) d b s w =
           (Inl ([0], [], None, Some err),
            w\<lparr>clock := clock w + (if xs = [] then 0 else rtt (env (nat i))),
              sock_ops := sock_ops w @ OpWriteTo d # xs\<rparr>)" "xs = [] \<or> xs = [OpReadFrom]"
        using attempt_body_Inl [OF fail] by blast
      have "sock_ops (snd (exchange_loop sy env d b attempts i s w)) = sock_ops w @ (OpWriteTo d # xs)"
        using True a1(1) by (simp add: exchange_loop.simps [of _ _ _ _ attempts i])
      moreover have "set (OpWriteTo d # xs) \<subseteq> {OpWriteTo d, OpReadFrom}"
        using a1(2) by auto
      moreover have "stdout (snd (exchange_loop sy env d b attempts i s w)) = stdout w"
        using True a1(1) by (simp add: exchange_loop.simps [of _ _ _ _ attempts i])
      ultimately show ?thesis by blast
    qed
  qed
qed

lemma count_list_attempts:
  "count_list (concat (replicate k [OpWriteTo d, OpReadFrom])) (OpWriteTo d) = k"
  "count_list (concat (replicate k [OpWriteTo d, OpReadFrom])) OpReadFrom = k"
  by (induction k) simp_all

lemma names_loop_no_index: "names_loop ns acc \<noteq> Inl IndexOutOfRange"
  by (induction ns acc rule: names_loop.induct) simp_all

lemma ptr_string_no_index: "ptr_string sy a \<noteq> Inl IndexOutOfRange"
  using names_loop_no_index [of "fst (LookupAddr sy a)" "'' (''"]
  by (auto simp add: ptr_string_def Let_def split: sum.splits)

lemma peers_loop_no_index: "peers_loop sy ps i buf \<noteq> Inl IndexOutOfRange"
proof (induction sy ps i buf rule: peers_loop.induct)
  case (1 sy ps i buf)
  show ?case
  proof (cases "i < int (length ps)")
    case False
    then show ?thesis by (simp add: peers_loop.simps [of sy ps i])
  next
    case True
    show ?thesis
    proof (cases "ptr_string sy (ps ! 0)")
      case (Inl e)
      then have "e \<noteq> IndexOutOfRange" using ptr_string_no_index [of sy "ps ! 0"] by auto
      then show ?thesis using True Inl by (simp add: peers_loop.simps [of sy ps i])
    next
      case (Inr str)
      then show ?thesis
        using True "1.IH" [OF True Inr] by (simp add: peers_loop.simps [of sy ps i])
    qed
  qed
qed

lemma createPeersString_no_index:
  assumes "ps \<noteq> []"
  shows "createPeersString sy ps \<noteq> Inl IndexOutOfRange"
proof -
  obtain p rest where ps: "ps = p # rest" using assms by (cases ps) auto
  have a: "\<And>qs. (case peers_loop sy qs 0 ''['' of
                Inl e \<Rightarrow> Inl e
              | Inr buffStr \<Rightarrow>
                  if length buffStr < 2 then Inl SliceBoundsOutOfRange
                  else Inr (take (length buffStr - 2) buffStr @ '']'')) \<noteq> Inl IndexOutOfRange"
    using peers_loop_no_index by (auto split: sum.splits)
  show ?thesis
    using a [of "[p]"] a [of ps] by (simp add: createPeersString_def Let_def ps)
qed

lemmas eval_defs = socketExchange_def exchange_body_def exchange_loop.simps attempt_body_def
  classify_def Let_def example_sys_def example_parse_def replies_def times_out_def scripted_def
  world0_def ICMPTypeEchoReply_def ICMPTypeTimeExceeded_def ICMPTypeDestinationUnreachable_def
  MaxWaitSec_def Second_def

text \<open>
  Claim C1, as stated, fails: in an exchange of two attempts whose first reply is an
  EchoReply and whose second read times out, the result is not EchoReply but the error
  of the second attempt, with no classification.
\<close>
theorem socketExchange_precedence_counterexample:
  "probe_outcome (example_sys (const_net echo_then_timeout)) ''probe'' (attempt echo_then_timeout 0)
     = Inr (1000, ''10.0.0.9'', \<lparr>Type = ICMPTypeEchoReply, Code = 0, Body = RawBody []\<rparr>)
   \<and> fst (socketExchange (example_sys (const_net echo_then_timeout)) echo_then_timeout
            ''10.0.0.9'' ''probe'' 1 2 world0)
     = ([0], [], None, Some (LibError ''i/o timeout''))"
  by (simp add: probe_outcome_def echo_then_timeout_def eval_defs)

text \<open>
  Claim C1, amended. For an exchange whose socket opens. If all its attempts complete (each
  sends the whole probe, reads a reply and parses it): when the reply of any attempt is an
  EchoReply the result is EchoReply, with the durations and responders of all attempts in
  order; otherwise, when the reply of any attempt is a TimeExceeded, the result is
  TimeExceeded, with the same two lists. If an attempt ends in an error, the first such
  error is the result of the whole exchange, with no classification, whatever the replies
  of the attempts before it were.
\<close>
theorem socketExchange_precedence:
  assumes "listen_err env = None" and "deadline_err env = None"
  shows "((\<forall>j < nat attempts. probe_outcome sy b (attempt env j) = Inr (du j, pr j, m j)) \<longrightarrow>
            ((\<exists>j < nat attempts. Type (m j) = ICMPTypeEchoReply) \<longrightarrow>
               fst (socketExchange sy env d b ttl attempts w)
                 = (map du [0..<nat attempts], map pr [0..<nat attempts], Some ICMPTypeEchoReply, None))
          \<and> ((\<forall>j < nat attempts. Type (m j) \<noteq> ICMPTypeEchoReply)
               \<and> (\<exists>j < nat attempts. Type (m j) = ICMPTypeTimeExceeded) \<longrightarrow>
               fst (socketExchange sy env d b ttl attempts w)
                 = (map du [0..<nat attempts], map pr [0..<nat attempts], Some ICMPTypeTimeExceeded, None)))
       \<and> (k < nat attempts
            \<and> (\<forall>j < k. \<not> isl (probe_outcome sy b (attempt env j)))
            \<and> probe_outcome sy b (attempt env k) = Inl err \<longrightarrow>
            fst (socketExchange sy env d b ttl attempts w) = ([0], [], None, Some err))"
proof -
  have A: "(\<forall>j < nat attempts. probe_outcome sy b (attempt env j) = Inr (du j, pr j, m j)) \<longrightarrow>
            ((\<exists>j < nat attempts. Type (m j) = ICMPTypeEchoReply) \<longrightarrow>
               fst (socketExchange sy env d b ttl attempts w)
                 = (map du [0..<nat attempts], map pr [0..<nat attempts], Some ICMPTypeEchoReply, None))
          \<and> ((\<forall>j < nat attempts. Type (m j) \<noteq> ICMPTypeEchoReply)
               \<and> (\<exists>j < nat attempts. Type (m j) = ICMPTypeTimeExceeded) \<longrightarrow>
               fst (socketExchange sy env d b ttl attempts w)
                 = (map du [0..<nat attempts], map pr [0..<nat attempts], Some ICMPTypeTimeExceeded, None))"
  proof
    assume ok: "\<forall>j < nat attempts. probe_outcome sy b (attempt env j) = Inr (du j, pr j, m j)"
    show "((\<exists>j < nat attempts. Type (m j) = ICMPTypeEchoReply) \<longrightarrow>
               fst (socketExchange sy env d b ttl attempts w)
                 = (map du [0..<nat attempts], map pr [0..<nat attempts], Some ICMPTypeEchoReply, None))
          \<and> ((\<forall>j < nat attempts. Type (m j) \<noteq> ICMPTypeEchoReply)
               \<and> (\<exists>j < nat attempts. Type (m j) = ICMPTypeTimeExceeded) \<longrightarrow>
               fst (socketExchange sy env d b ttl attempts w)
                 = (map du [0..<nat attempts], map pr [0..<nat attempts], Some ICMPTypeTimeExceeded, None))"
      using socketExchange_ok [of env attempts sy b "\<lambda>j. (du j, pr j, m j)" d ttl w, OF assms ok]
      by auto
  qed
  have B: "k < nat attempts
            \<and> (\<forall>j < k. \<not> isl (probe_outcome sy b (attempt env j)))
            \<and> probe_outcome sy b (attempt env k) = Inl err \<longrightarrow>
            fst (socketExchange sy env d b ttl attempts w) = ([0], [], None, Some err)"
  proof
    assume h: "k < nat attempts
            \<and> (\<forall>j < k. \<not> isl (probe_outcome sy b (attempt env j)))
            \<and> probe_outcome sy b (attempt env k) = Inl err"
    let ?v = "\<lambda>j. projr (probe_outcome sy b (attempt env j))"
    have v: "\<forall>j < k. probe_outcome sy b (attempt env j) = Inr (?v j)"
      using h by simp
    have k: "k < nat attempts" and e: "probe_outcome sy b (attempt env k) = Inl err"
      using h by simp_all
    obtain xs w' where "socketExchange sy env d b ttl attempts w = (([0], [], None, Some err), w')"
      using socketExchange_fail [OF assms k v e, of d ttl w] by blast
    then show "fst (socketExchange sy env d b ttl attempts w) = ([0], [], None, Some err)"
      by simp
  qed
  show ?thesis using A B by blast
qed

theorem socketExchange_precedence_witness:
  "fst (socketExchange (example_sys (const_net mixed_replies)) mixed_replies ''10.0.0.9'' ''probe'' 1 3 world0)
     = ([1000, 2000, 3000], [''10.0.0.7'', ''10.0.0.9'', ''10.0.0.7''], Some ICMPTypeEchoReply, None)
   \<and> fst (socketExchange (example_sys (const_net (three_of ICMPTypeTimeExceeded))) (three_of ICMPTypeTimeExceeded)
            ''10.0.0.9'' ''probe'' 1 3 world0)
     = ([Second, Second, Second], [''10.0.0.9'', ''10.0.0.9'', ''10.0.0.9''], Some ICMPTypeTimeExceeded, None)
   \<and> \<not> isl (probe_outcome (example_sys (const_net echo_then_timeout)) ''probe'' (attempt echo_then_timeout 0))
   \<and> probe_outcome (example_sys (const_net echo_then_timeout)) ''probe'' (attempt echo_then_timeout 1)
       = Inl (LibError ''i/o timeout'')
   \<and> fst (socketExchange (example_sys (const_net echo_then_timeout)) echo_then_timeout
            ''10.0.0.9'' ''probe'' 1 3 world0)
     = ([0], [], None, Some (LibError ''i/o timeout''))"
proof -
  let ?du = "\<lambda>j::nat. if j = 0 then 1000 else if j = 1 then 2000 else (3000::int)"
  let ?pr = "\<lambda>j::nat. if j = 1 then ''10.0.0.9'' else ''10.0.0.7''"
  let ?m = "\<lambda>j::nat. \<lparr>Type = (if j = 1 then ICMPTypeEchoReply else ICMPTypeTimeExceeded), Code = 0, Body = RawBody []\<rparr>"
  have l1: "listen_err mixed_replies = None" and d1: "deadline_err mixed_replies = None"
    by (simp_all add: mixed_replies_def scripted_def)
  have p1: "\<forall>j < nat 3. probe_outcome (example_sys (const_net mixed_replies)) ''probe'' (attempt mixed_replies j)
      = Inr (?du j, ?pr j, ?m j)"
    by (simp add: numeral_3_eq_3 All_less_Suc probe_outcome_def mixed_replies_def eval_defs)
  have e1: "\<exists>j < nat 3. Type (?m j) = ICMPTypeEchoReply"
    by (rule exI [of _ 1]) simp
  have u3: "[0..<3] = [0, 1, 2::nat]"
    by (simp add: numeral_3_eq_3 upt_rec)
  have r1: "fst (socketExchange (example_sys (const_net mixed_replies)) mixed_replies ''10.0.0.9'' ''probe'' 1 3 world0)
     = ([1000, 2000, 3000], [''10.0.0.7'', ''10.0.0.9'', ''10.0.0.7''], Some ICMPTypeEchoReply, None)"
    using socketExchange_precedence [OF l1 d1, where attempts = 3 and sy = "example_sys (const_net mixed_replies)"
        and b = "''probe''" and du = ?du and pr = ?pr and m = ?m and d = "''10.0.0.9''" and ttl = 1 and w = world0]
      p1 e1
    by (simp add: u3)
  let ?T = "three_of ICMPTypeTimeExceeded"
  let ?m2 = "\<lambda>j::nat. \<lparr>Type = ICMPTypeTimeExceeded, Code = 0, Body = RawBody []\<rparr>"
  have l2: "listen_err ?T = None" and d2: "deadline_err ?T = None"
    by (simp_all add: three_of_def scripted_def)
  have p2: "\<forall>j < nat 3. probe_outcome (example_sys (const_net ?T)) ''probe'' (attempt ?T j)
      = Inr (Second, ''10.0.0.9'', ?m2 j)"
    by (simp add: numeral_3_eq_3 All_less_Suc probe_outcome_def three_of_def eval_defs)
  have e2: "(\<forall>j < nat 3. Type (?m2 j) \<noteq> ICMPTypeEchoReply) \<and> (\<exists>j < nat 3. Type (?m2 j) = ICMPTypeTimeExceeded)"
    by (auto simp add: ICMPTypeTimeExceeded_def ICMPTypeEchoReply_def intro: exI [of _ 0])
  have r2: "fst (socketExchange (example_sys (const_net ?T)) ?T ''10.0.0.9'' ''probe'' 1 3 world0)
     = ([Second, Second, Second], [''10.0.0.9'', ''10.0.0.9'', ''10.0.0.9''], Some ICMPTypeTimeExceeded, None)"
    using socketExchange_precedence [OF l2 d2, where attempts = 3 and sy = "example_sys (const_net ?T)"
        and b = "''probe''" and du = "\<lambda>j. Second" and pr = "\<lambda>j. ''10.0.0.9''" and m = ?m2
        and d = "''10.0.0.9''" and ttl = 1 and w = world0]
      p2 e2
    by (simp add: u3)
  let ?E = "example_sys (const_net echo_then_timeout)"
  have l3: "listen_err echo_then_timeout = None" and d3: "deadline_err echo_then_timeout = None"
    by (simp_all add: echo_then_timeout_def scripted_def)
  have k3: "(1::nat) < nat 3" by simp
  have o0: "\<not> isl (probe_outcome ?E ''probe'' (attempt echo_then_timeout 0))"
    by (simp add: probe_outcome_def echo_then_timeout_def eval_defs)
  then have ok3: "\<forall>j < (1::nat). \<not> isl (probe_outcome ?E ''probe'' (attempt echo_then_timeout j))"
    by simp
  have bad3: "probe_outcome ?E ''probe'' (attempt echo_then_timeout 1) = Inl (LibError ''i/o timeout'')"
    by (simp add: probe_outcome_def echo_then_timeout_def eval_defs)
  have r3: "fst (socketExchange ?E echo_then_timeout ''10.0.0.9'' ''probe'' 1 3 world0)
     = ([0], [], None, Some (LibError ''i/o timeout''))"
    using socketExchange_precedence [OF l3 d3, where attempts = 3 and sy = ?E and b = "''probe''"
        and k = 1 and err = "LibError ''i/o timeout''" and d = "''10.0.0.9''" and ttl = 1 and w = world0]
      k3 ok3 bad3
    by blast
  show ?thesis using r1 r2 o0 bad3 r3 by simp
qed

lemma length_echo_data:
  assumes "0 \<le> S"
  shows "length (echo_data S) = nat S"
proof -
  have "length (concat (replicate (nat S div 4) dataChunk)) = 4 * (nat S div 4)"
    by (simp only: length_concat_replicate) (simp add: dataChunk_def)
  moreover have "length (take (nat S mod 4) dataChunk) = nat S mod 4"
    by (simp add: dataChunk_def)
  ultimately have "length (echo_data S) = 4 * (nat S div 4) + nat S mod 4"
    by (simp only: echo_data_eq [OF assms] length_append)
  then show ?thesis by (simp only: mult_div_mod_eq)
qed

lemma length_example_probe:
  "length (fst (buildEchoRequest example_marshal pid ICMPTypeEcho MsgLength)) = 64"
  by (simp add: buildEchoRequest_def example_marshal_def echo_message_def length_echo_data MsgLength_def)

text \<open>
  Claim C2 at a failing input: three replies of type DestinationUnreachable. The exchange
  returns no error and the classification TimeExceeded, and ping prints the hop as a
  time-exceeded line, not as an error line.
\<close>
theorem unexpected_type_accepted:
  "fst (socketExchange (example_sys (const_net (three_of ICMPTypeDestinationUnreachable)))
          (three_of ICMPTypeDestinationUnreachable) ''10.0.0.9'' ''probe'' 1 3 world0)
     = ([Second, Second, Second], [''10.0.0.9'', ''10.0.0.9'', ''10.0.0.9''],
        Some ICMPTypeTimeExceeded, None)
   \<and> fst (ping (example_sys unreachable_net) ''10.0.0.9'' 1 world0) = Inr False
   \<and> stdout (snd (ping (example_sys unreachable_net) ''10.0.0.9'' 1 world0))
     = [HopTTLExc 1 [Second, Second, Second] ''[10.0.0.9]'']"
proof -
  have a: "fst (socketExchange (example_sys (const_net (three_of ICMPTypeDestinationUnreachable)))
          (three_of ICMPTypeDestinationUnreachable) ''10.0.0.9'' ''probe'' 1 3 world0)
     = ([Second, Second, Second], [''10.0.0.9'', ''10.0.0.9'', ''10.0.0.9''],
        Some ICMPTypeTimeExceeded, None)"
    by (simp add: three_of_def eval_defs)
  let ?b = "fst (buildEchoRequest example_marshal 4242 ICMPTypeEcho MsgLength)"
  have len: "length ?b = 64" by (rule length_example_probe)
  have x: "socketExchange (example_sys unreachable_net) (unreachable_net 1) ''10.0.0.9'' ?b 1 3 world0
     = (([Second, Second, Second], [''10.0.0.9'', ''10.0.0.9'', ''10.0.0.9''],
        Some ICMPTypeTimeExceeded, None),
        \<lparr>clock = 3 * Second,
         sock_ops = [OpListen, OpSetReadDeadline (MaxWaitSec * Second), OpSetTTL 1,
           OpWriteTo ''10.0.0.9'', OpReadFrom, OpWriteTo ''10.0.0.9'', OpReadFrom,
           OpWriteTo ''10.0.0.9'', OpReadFrom, OpClose],
         stdout = []\<rparr>)"
    by (simp add: unreachable_net_def len eval_defs)
  have c: "createPeersString (example_sys unreachable_net) [''10.0.0.9'', ''10.0.0.9'', ''10.0.0.9'']
      = Inr ''[10.0.0.9]''"
    by (simp add: createPeersString_def identical_loop.simps peers_loop.simps ptr_string_def
        example_sys_def example_lookup_def)
  have p: "ping (example_sys unreachable_net) ''10.0.0.9'' 1 world0
      = (Inr False, \<lparr>clock = 3 * Second,
         sock_ops = [OpListen, OpSetReadDeadline (MaxWaitSec * Second), OpSetTTL 1,
           OpWriteTo ''10.0.0.9'', OpReadFrom, OpWriteTo ''10.0.0.9'', OpReadFrom,
           OpWriteTo ''10.0.0.9'', OpReadFrom, OpClose],
         stdout = [HopTTLExc 1 [Second, Second, Second] ''[10.0.0.9]'']\<rparr>)"
    unfolding ping_def Let_def AttemptsCount_def
    using x c
    by (simp add: example_sys_def ICMPTypeTimeExceeded_def ICMPTypeEchoReply_def)
  show ?thesis using a p by simp
qed

text \<open>
  Claim C3. If attempt \<open>k\<close> is the first attempt of an exchange to end in an error (failed
  send, partial write, failed read, reply that does not parse), the exchange returns that
  error with no classification, and exactly \<open>k + 1\<close> sends have been made on the socket: no
  later attempt is executed.
\<close>
theorem socketExchange_first_error_aborts:
  assumes "listen_err env = None" and "deadline_err env = None"
    and "k < nat attempts"
    and "\<forall>j < k. \<not> isl (probe_outcome sy b (attempt env j))"
    and "probe_outcome sy b (attempt env k) = Inl err"
  shows "fst (socketExchange sy env d b ttl attempts w) = ([0], [], None, Some err)
       \<and> count_list (sock_ops (snd (socketExchange sy env d b ttl attempts w))) (OpWriteTo d)
           = count_list (sock_ops w) (OpWriteTo d) + k + 1
       \<and> count_list (sock_ops (snd (socketExchange sy env d b ttl attempts w))) OpReadFrom
           \<le> count_list (sock_ops w) OpReadFrom + k + 1"
proof -
  let ?v = "\<lambda>j. projr (probe_outcome sy b (attempt env j))"
  have v: "\<forall>j < k. probe_outcome sy b (attempt env j) = Inr (?v j)"
    using assms(4) by (simp add: sum.collapse(2))
  obtain xs w' where r: "socketExchange sy env d b ttl attempts w = (([0], [], None, Some err), w')"
    "sock_ops w' = sock_ops w @ [OpListen, OpSetReadDeadline (clock w + MaxWaitSec * Second), OpSetTTL ttl]
                     @ concat (replicate k [OpWriteTo d, OpReadFrom]) @ OpWriteTo d # xs @ [OpClose]"
    "xs = [] \<or> xs = [OpReadFrom]"
    using socketExchange_fail [OF assms(1,2,3) v assms(5), of d ttl w] by blast
  have c1: "count_list (sock_ops w') (OpWriteTo d) = count_list (sock_ops w) (OpWriteTo d) + k + 1"
    using r(3) by (auto simp add: r(2) count_list_attempts)
  have c2: "count_list (sock_ops w') OpReadFrom \<le> count_list (sock_ops w) OpReadFrom + k + 1"
    using r(3) by (auto simp add: r(2) count_list_attempts)
  show ?thesis using r(1) c1 c2 by simp
qed

theorem socketExchange_first_error_aborts_witness:
  "fst (socketExchange (example_sys (const_net echo_then_timeout)) echo_then_timeout
          ''10.0.0.9'' ''probe'' 1 3 world0) = ([0], [], None, Some (LibError ''i/o timeout''))
   \<and> count_list (sock_ops (snd (socketExchange (example_sys (const_net echo_then_timeout))
          echo_then_timeout ''10.0.0.9'' ''probe'' 1 3 world0))) (OpWriteTo ''10.0.0.9'') = 2"
proof -
  let ?sy = "example_sys (const_net echo_then_timeout)"
  have l: "listen_err echo_then_timeout = None" and d: "deadline_err echo_then_timeout = None"
    by (simp_all add: echo_then_timeout_def scripted_def)
  have k: "(1::nat) < nat 3" by simp
  have ok: "\<forall>j < (1::nat). \<not> isl (probe_outcome ?sy ''probe'' (attempt echo_then_timeout j))"
    by (simp add: probe_outcome_def echo_then_timeout_def eval_defs)
  have bad: "probe_outcome ?sy ''probe'' (attempt echo_then_timeout 1) = Inl (LibError ''i/o timeout'')"
    by (simp add: probe_outcome_def echo_then_timeout_def eval_defs)
  show ?thesis
    using socketExchange_first_error_aborts [OF l d k ok bad, of "''10.0.0.9''" 1 world0]
    by (simp add: world0_def)
qed

text \<open>
  Claim C5, as stated, fails: in an exchange of three attempts that all get a reply, the
  socket sees one SetReadDeadline, for four seconds after the start of the call, followed by
  three sends; the second and third send are not preceded by a new deadline.
\<close>
theorem read_deadline_counterexample:
  "sock_ops (snd (socketExchange (example_sys (const_net (three_of ICMPTypeTimeExceeded)))
          (three_of ICMPTypeTimeExceeded) ''10.0.0.9'' ''probe'' 1 3 world0))
     = [OpListen, OpSetReadDeadline (0 + MaxWaitSec * Second), OpSetTTL 1,
        OpWriteTo ''10.0.0.9'', OpReadFrom, OpWriteTo ''10.0.0.9'', OpReadFrom,
        OpWriteTo ''10.0.0.9'', OpReadFrom, OpClose]
   \<and> clock (snd (socketExchange (example_sys (const_net (three_of ICMPTypeTimeExceeded)))
          (three_of ICMPTypeTimeExceeded) ''10.0.0.9'' ''probe'' 1 3 world0)) = 3 * Second"
  by (simp add: three_of_def eval_defs)

text \<open>
  Claim C5, amended. In an exchange whose socket opens, the read deadline is set exactly
  once, to MaxWaitSec seconds after the time of the call, right after the socket is opened
  and before any send; no attempt sets it again.
\<close>
theorem read_deadline_set_once:
  assumes "listen_err env = None"
  shows "\<exists>rest. sock_ops (snd (socketExchange sy env d b ttl attempts w))
           = sock_ops w @ [OpListen, OpSetReadDeadline (clock w + MaxWaitSec * Second)] @ rest
         \<and> (\<forall>t. OpSetReadDeadline t \<notin> set rest)"
proof (cases "deadline_err env")
  case (Some err)
  have "sock_ops (snd (socketExchange sy env d b ttl attempts w))
           = sock_ops w @ [OpListen, OpSetReadDeadline (clock w + MaxWaitSec * Second)] @ [OpClose]"
    using assms Some by (simp add: socketExchange_def exchange_body_def Let_def)
  moreover have "\<forall>t. OpSetReadDeadline t \<notin> set [OpClose]" by simp
  ultimately show ?thesis by blast
next
  case None
  let ?w = "w\<lparr>sock_ops := sock_ops w @ [OpListen, OpSetReadDeadline (clock w + MaxWaitSec * Second), OpSetTTL ttl]\<rparr>"
  let ?r = "exchange_loop sy (attempt env) d b attempts 0 init_xstate ?w"
  obtain xs where xs: "sock_ops (snd ?r) = sock_ops ?w @ xs" "set xs \<subseteq> {OpWriteTo d, OpReadFrom}"
    using exchange_loop_effects [of sy "attempt env" d b attempts 0 init_xstate ?w] by blast
  have "sock_ops (snd (socketExchange sy env d b ttl attempts w)) = sock_ops (snd ?r) @ [OpClose]"
    unfolding socketExchange_unfold [OF assms None]
    by (cases ?r) (simp split: sum.splits)
  then have "sock_ops (snd (socketExchange sy env d b ttl attempts w))
           = sock_ops w @ [OpListen, OpSetReadDeadline (clock w + MaxWaitSec * Second)] @ (OpSetTTL ttl # xs @ [OpClose])"
    using xs(1) by simp
  moreover have "\<forall>t. OpSetReadDeadline t \<notin> set (OpSetTTL ttl # xs @ [OpClose])"
    using xs(2) by auto
  ultimately show ?thesis by blast
qed

theorem read_deadline_set_once_witness:
  "listen_err (three_of ICMPTypeTimeExceeded) = None
   \<and> (\<exists>rest. sock_ops (snd (socketExchange (example_sys (const_net (three_of ICMPTypeTimeExceeded)))
          (three_of ICMPTypeTimeExceeded) ''10.0.0.9'' ''probe'' 1 3 world0))
           = [OpListen, OpSetReadDeadline 4000000000] @ rest
         \<and> (\<forall>t. OpSetReadDeadline t \<notin> set rest))"
proof -
  have l: "listen_err (three_of ICMPTypeTimeExceeded) = None"
    by (simp add: three_of_def scripted_def)
  show ?thesis
    using l read_deadline_set_once [OF l, of "example_sys (const_net (three_of ICMPTypeTimeExceeded))"
        "''10.0.0.9''" "''probe''" 1 3 world0]
    by (simp add: world0_def MaxWaitSec_def Second_def)
qed

section \<open>Properties of the address presenter, of ping and of tracert\<close>

lemma identical_loop_same:
  "(\<forall>x \<in> set ps. x = a) \<Longrightarrow> 0 \<le> i \<Longrightarrow> identical_loop ps i f = f"
proof (induction ps i f rule: identical_loop.induct)
  case (1 ps i f)
  show ?case
  proof (cases "i < int (length ps) - 1")
    case True
    then have "nat i < length ps" "nat (i + 1) < length ps"
      using 1(3) by simp_all
    then have "ps ! nat i \<in> set ps" "ps ! nat (i + 1) \<in> set ps"
      by simp_all
    then have eq: "ps ! nat i = ps ! nat (i + 1)"
      using 1(2) by metis
    have "identical_loop ps i f = identical_loop ps (i + 1) f"
      using True eq by (simp add: identical_loop.simps [of ps i])
    also have "\<dots> = f"
      using 1(1) [OF True] 1(2,3) eq by simp
    finally show ?thesis .
  next
    case False
    then show ?thesis by (simp add: identical_loop.simps [of ps i])
  qed
qed

lemma socketExchange_shape:
  assumes "fst (socketExchange sy env d b ttl attempts w) = (ds, ps, t, None)"
  shows "(t = Some ICMPTypeEchoReply \<or> t = Some ICMPTypeTimeExceeded)
       \<and> length ds = nat attempts \<and> length ps = nat attempts"
proof (cases "listen_err env")
  case (Some err)
  then show ?thesis using assms by (simp add: socketExchange_def Let_def)
next
  case None
  note l = None
  show ?thesis
  proof (cases "deadline_err env")
    case (Some err)
    then show ?thesis using assms l
      by (simp add: socketExchange_def exchange_body_def Let_def)
  next
    case None
    let ?w = "w\<lparr>sock_ops := sock_ops w @ [OpListen, OpSetReadDeadline (clock w + MaxWaitSec * Second), OpSetTTL ttl]\<rparr>"
    obtain x w3 where r: "exchange_loop sy (attempt env) d b attempts 0 init_xstate ?w = (x, w3)"
      by (cases "exchange_loop sy (attempt env) d b attempts 0 init_xstate ?w")
    show ?thesis
    proof (cases x)
      case (Inl res)
      then obtain err where "res = ([0], [], None, Some err)"
        using exchange_loop_Inl r by blast
      then show ?thesis
        using assms Inl r by (simp add: socketExchange_unfold [OF l None])
    next
      case (Inr s')
      have c: "classify s' = (ds, ps, t, None)"
        using assms Inr r by (simp add: socketExchange_unfold [OF l None])
      have i: "length (durationsArray s') = nat attempts" "length (peersArray s') = nat attempts"
        "t_v s' = ICMPTypeTimeExceeded \<or> t_v s' = ICMPTypeEchoReply"
        using exchange_loop_Inr [of sy "attempt env" d b attempts 0 init_xstate ?w s' w3] r Inr
        by (simp_all add: init_xstate_def)
      show ?thesis
        using c i by (auto simp add: classify_def split: if_splits)
    qed
  qed
qed

lemma ping_no_index: "fst (ping sy dest ttl w) \<noteq> Inl IndexOutOfRange"
proof -
  let ?b = "fst (buildEchoRequest (Marshal sy) (Getpid sy) ICMPTypeEcho MsgLength)"
  obtain ds ps t err w1 where r:
    "socketExchange sy (network sy ttl) dest ?b ttl AttemptsCount w = ((ds, ps, t, err), w1)"
    by (cases "socketExchange sy (network sy ttl) dest ?b ttl AttemptsCount w") auto
  show ?thesis
  proof (cases "err = None")
    case False
    then show ?thesis using r by (auto simp add: ping_def Let_def)
  next
    case True
    have "fst (socketExchange sy (network sy ttl) dest ?b ttl AttemptsCount w) = (ds, ps, t, None)"
      using r True by simp
    then have "length ps = nat AttemptsCount" using socketExchange_shape by blast
    then have "ps \<noteq> []" by (auto simp add: AttemptsCount_def)
    then have "createPeersString sy ps \<noteq> Inl IndexOutOfRange"
      by (rule createPeersString_no_index)
    then show ?thesis
      using r True by (auto simp add: ping_def Let_def split: option.splits sum.splits)
  qed
qed

text \<open>
  Claim C8 at a failing input: two different addresses, each with its own reverse-DNS names.
  The second address is shown with the names of the first one: the lookup is made for
  \<open>peersArray[0]\<close> on every pass, not for the address being shown.
\<close>
theorem createPeersString_looks_up_first_address:
  "createPeersString (example_sys (const_net (scripted []))) [''10.0.0.1'', ''10.0.0.2'']
     = Inr ''[10.0.0.1 (a.example)  10.0.0.2 (a.example)]''
   \<and> LookupAddr (example_sys (const_net (scripted []))) ''10.0.0.2''
     = ([''b.example.'', ''c.example.''], None)"
  by (simp add: createPeersString_def identical_loop.simps peers_loop.simps ptr_string_def
      example_sys_def example_lookup_def)

text \<open>
  Claim C9. Presenting \<open>n \<ge> 1\<close> copies of one address gives the same result as presenting
  a single copy, whatever \<open>n\<close> is.
\<close>
theorem createPeersString_collapse:
  assumes "1 \<le> n"
  shows "createPeersString sy (replicate n a) = createPeersString sy [a]"
proof -
  obtain m where n: "n = Suc m" using assms by (cases n) simp_all
  have "identical_loop (replicate n a) 0 True = True"
    by (rule identical_loop_same [of _ a]) simp_all
  moreover have "identical_loop [a] 0 True = True"
    by (rule identical_loop_same [of _ a]) simp_all
  ultimately show ?thesis
    by (simp add: createPeersString_def n)
qed

theorem createPeersString_collapse_witness:
  "(1::nat) \<le> 5
   \<and> createPeersString (example_sys (const_net (scripted []))) (replicate 5 ''10.0.0.1'')
     = createPeersString (example_sys (const_net (scripted []))) [''10.0.0.1'']
   \<and> createPeersString (example_sys (const_net (scripted []))) [''10.0.0.1'']
     = Inr ''[10.0.0.1 (a.example)]''"
proof -
  have h: "(1::nat) \<le> 5" by simp
  have "createPeersString (example_sys (const_net (scripted []))) [''10.0.0.1'']
     = Inr ''[10.0.0.1 (a.example)]''"
    by (simp add: createPeersString_def identical_loop.simps peers_loop.simps ptr_string_def
      example_sys_def example_lookup_def)
  then show ?thesis
    using createPeersString_collapse [OF h, of "example_sys (const_net (scripted []))" "''10.0.0.1''"]
    by simp
qed

text \<open>
  Claim C10. When socketExchange returns no error, its classification is present and is
  EchoReply or TimeExceeded, and the duration list and the address list have one entry for
  each attempt: their length is the attempt count (for a count that is not negative). So for
  a positive count the address list is not empty and createPeersString does not fail on its
  first element; in particular ping, which asks for AttemptsCount attempts, never does.
\<close>
theorem socketExchange_success_shape:
  assumes "fst (socketExchange sy env d b ttl attempts w) = (ds, ps, t, None)"
  shows "(t = Some ICMPTypeEchoReply \<or> t = Some ICMPTypeTimeExceeded)
       \<and> length ds = nat attempts \<and> length ps = nat attempts
       \<and> (0 \<le> attempts \<longrightarrow> int (length ds) = attempts \<and> int (length ps) = attempts)
       \<and> (0 < attempts \<longrightarrow> ps \<noteq> [] \<and> createPeersString sy ps \<noteq> Inl IndexOutOfRange)
       \<and> fst (ping sy dest hop w') \<noteq> Inl IndexOutOfRange"
proof -
  have s: "(t = Some ICMPTypeEchoReply \<or> t = Some ICMPTypeTimeExceeded)
       \<and> length ds = nat attempts \<and> length ps = nat attempts"
    by (rule socketExchange_shape [OF assms])
  have "0 < attempts \<longrightarrow> ps \<noteq> []" using s by auto
  then have "0 < attempts \<longrightarrow> ps \<noteq> [] \<and> createPeersString sy ps \<noteq> Inl IndexOutOfRange"
    using createPeersString_no_index by blast
  then show ?thesis using s ping_no_index [of sy dest hop w'] by simp
qed

theorem socketExchange_success_shape_witness:
  "fst (socketExchange (example_sys (const_net mixed_replies)) mixed_replies ''10.0.0.9'' ''probe'' 1 3 world0)
     = ([1000, 2000, 3000], [''10.0.0.7'', ''10.0.0.9'', ''10.0.0.7''], Some ICMPTypeEchoReply, None)
   \<and> length [''10.0.0.7'', ''10.0.0.9'', ''10.0.0.7''] = nat 3
   \<and> createPeersString (example_sys (const_net mixed_replies)) [''10.0.0.7'', ''10.0.0.9'', ''10.0.0.7'']
       \<noteq> Inl IndexOutOfRange"
proof -
  have r: "fst (socketExchange (example_sys (const_net mixed_replies)) mixed_replies ''10.0.0.9'' ''probe'' 1 3 world0)
     = ([1000, 2000, 3000], [''10.0.0.7'', ''10.0.0.9'', ''10.0.0.7''], Some ICMPTypeEchoReply, None)"
    by (simp add: mixed_replies_def eval_defs)
  show ?thesis
    using r socketExchange_success_shape [OF r, of "''10.0.0.9''" 1 world0]
    by simp
qed

lemma sweep_run_terminal [simp]:
  "sweep_run echo n Reached = Reached" "sweep_run echo n Exhausted = Exhausted"
  by (induction n) simp_all

lemma socketExchange_world_indep:
  "fst (socketExchange sy env d b ttl attempts w) = fst (socketExchange sy env d b ttl attempts w2)"
proof (cases "listen_err env")
  case (Some err)
  then show ?thesis by (simp add: socketExchange_def Let_def)
next
  case None
  note l = None
  show ?thesis
  proof (cases "deadline_err env")
    case (Some err)
    then show ?thesis using l by (simp add: socketExchange_def exchange_body_def Let_def)
  next
    case None
    have f: "\<And>x. fst (case x of (Inl r, w3) \<Rightarrow> (r, w3\<lparr>sock_ops := sock_ops w3 @ [OpClose]\<rparr>)
                      | (Inr s, w3) \<Rightarrow> (classify s, w3\<lparr>sock_ops := sock_ops w3 @ [OpClose]\<rparr>))
              = (case fst x of Inl r \<Rightarrow> r | Inr s \<Rightarrow> classify s)"
      by (simp split: prod.splits sum.splits)
    show ?thesis
      unfolding socketExchange_unfold [OF l None] f
      using exchange_loop_world_indep [of sy "attempt env" d b attempts 0 init_xstate]
      by metis
  qed
qed

lemma socketExchange_stdout:
  "stdout (snd (socketExchange sy env d b ttl attempts w)) = stdout w"
proof (cases "listen_err env")
  case (Some err)
  then show ?thesis by (simp add: socketExchange_def Let_def)
next
  case None
  note l = None
  show ?thesis
  proof (cases "deadline_err env")
    case (Some err)
    then show ?thesis using l by (simp add: socketExchange_def exchange_body_def Let_def)
  next
    case None
    let ?w = "w\<lparr>sock_ops := sock_ops w @ [OpListen, OpSetReadDeadline (clock w + MaxWaitSec * Second), OpSetTTL ttl]\<rparr>"
    let ?r = "exchange_loop sy (attempt env) d b attempts 0 init_xstate ?w"
    have "stdout (snd ?r) = stdout ?w"
      using exchange_loop_effects [of sy "attempt env" d b attempts 0 init_xstate ?w] by blast
    moreover have "stdout (snd (socketExchange sy env d b ttl attempts w)) = stdout (snd ?r)"
      unfolding socketExchange_unfold [OF l None]
      by (cases ?r) (simp split: sum.splits)
    ultimately show ?thesis by simp
  qed
qed

lemma names_loop_ok:
  "\<forall>n \<in> set ns. n \<noteq> [] \<Longrightarrow> \<exists>r. names_loop ns acc = Inr r"
  by (induction ns acc rule: names_loop.induct) simp_all

lemma ptr_string_ok:
  assumes "names_ok sy"
  shows "\<exists>r. ptr_string sy a = Inr r"
proof -
  have "\<forall>n \<in> set (fst (LookupAddr sy a)). n \<noteq> []"
    using assms by (auto simp add: names_ok_def)
  then obtain r where "names_loop (fst (LookupAddr sy a)) '' ('' = Inr r"
    using names_loop_ok by blast
  then show ?thesis by (simp add: ptr_string_def Let_def)
qed

lemma peers_loop_ok:
  assumes "names_ok sy"
  shows "\<exists>r. peers_loop sy ps i buf = Inr r
           \<and> length buf + 2 * nat (int (length ps) - i) \<le> length r"
  using assms
proof (induction sy ps i buf rule: peers_loop.induct)
  case (1 sy ps i buf)
  show ?case
  proof (cases "i < int (length ps)")
    case False
    then show ?thesis by (simp add: peers_loop.simps [of sy ps i])
  next
    case True
    obtain str where Inr: "ptr_string sy (ps ! 0) = Inr str"
      using ptr_string_ok [OF "1.prems"] by blast
    obtain r where r: "peers_loop sy ps (i + 1) (buf @ ps ! nat i @ str @ ''  '') = Inr r"
      "length (buf @ ps ! nat i @ str @ ''  '') + 2 * nat (int (length ps) - (i + 1)) \<le> length r"
      using "1.IH" [OF True Inr "1.prems"] by blast
    have "nat (int (length ps) - i) = Suc (nat (int (length ps) - (i + 1)))"
      using True by simp
    then have "length buf + 2 * nat (int (length ps) - i) \<le> length r"
      using r(2) by simp
    then show ?thesis
      using True Inr r(1) by (simp add: peers_loop.simps [of sy ps i])
  qed
qed

lemma createPeersString_ok:
  assumes "names_ok sy" and "ps \<noteq> []"
  shows "\<exists>r. createPeersString sy ps = Inr r"
proof -
  obtain p rest where ps: "ps = p # rest" using assms(2) by (cases ps) auto
  have a: "\<And>qs. qs \<noteq> [] \<Longrightarrow> \<exists>r. (case peers_loop sy qs 0 ''['' of
                Inl e \<Rightarrow> Inl e
              | Inr buffStr \<Rightarrow>
                  if length buffStr < 2 then Inl SliceBoundsOutOfRange
                  else Inr (take (length buffStr - 2) buffStr @ '']'')) = Inr r"
  proof -
    fix qs :: "addr list"
    assume q: "qs \<noteq> []"
    obtain r where r: "peers_loop sy qs 0 ''['' = Inr r"
      "length ''['' + 2 * nat (int (length qs) - 0) \<le> length r"
      using peers_loop_ok [OF assms(1), of qs 0 "''[''"] by blast
    have "1 \<le> length qs" using q by (cases qs) simp_all
    then have "\<not> length r < 2" using r(2) by simp
    then show "\<exists>r. (case peers_loop sy qs 0 ''['' of
                Inl e \<Rightarrow> Inl e
              | Inr buffStr \<Rightarrow>
                  if length buffStr < 2 then Inl SliceBoundsOutOfRange
                  else Inr (take (length buffStr - 2) buffStr @ '']'')) = Inr r"
      using r(1) by simp
  qed
  show ?thesis
    using a [of "[p]"] a [of ps] assms(2) by (simp add: createPeersString_def Let_def ps)
qed

lemma ping_fst:
  "fst (ping sy dest ttl w) =
     (case fst (socketExchange sy (network sy ttl) dest (probe_bytes sy) ttl AttemptsCount w) of
        (ds, ps, t, err) \<Rightarrow>
          if err = None then
            (case t of
               Some ty \<Rightarrow>
                 if ty = ICMPTypeEchoReply then
                   (case createPeersString sy ps of Inl e \<Rightarrow> Inl e | Inr str \<Rightarrow> Inr True)
                 else if ty = ICMPTypeTimeExceeded then
                   (case createPeersString sy ps of Inl e \<Rightarrow> Inl e | Inr str \<Rightarrow> Inr False)
                 else Inr False
             | None \<Rightarrow> Inr False)
          else Inr False)"
  by (simp add: ping_def probe_bytes_def Let_def split: prod.splits option.splits sum.splits)

lemma ping_world_indep:
  "fst (ping sy dest ttl w) = fst (ping sy dest ttl w2)"
  unfolding ping_fst
  using socketExchange_world_indep [of sy "network sy ttl" dest "probe_bytes sy" ttl AttemptsCount w w2]
  by simp

lemma ping_error:
  assumes "exchange_error sy dest ttl w = Some err"
  shows "fst (ping sy dest ttl w) = Inr False"
    and "stdout (snd (ping sy dest ttl w)) = stdout w @ [HopError ttl]"
proof -
  obtain ds ps t e w1 where r:
    "socketExchange sy (network sy ttl) dest (probe_bytes sy) ttl AttemptsCount w = ((ds, ps, t, e), w1)"
    by (cases "socketExchange sy (network sy ttl) dest (probe_bytes sy) ttl AttemptsCount w") auto
  have e: "e = Some err" using assms r by (simp add: exchange_error_def)
  have w1: "stdout w1 = stdout w"
    using socketExchange_stdout [of sy "network sy ttl" dest "probe_bytes sy" ttl AttemptsCount w] r
    by simp
  have p: "ping sy dest ttl w = (Inr False, w1\<lparr>stdout := stdout w1 @ [HopError ttl]\<rparr>)"
    using r e by (simp add: ping_def probe_bytes_def Let_def)
  show "fst (ping sy dest ttl w) = Inr False" using p by simp
  show "stdout (snd (ping sy dest ttl w)) = stdout w @ [HopError ttl]" using p w1 by simp
qed

lemma ping_line:
  assumes "names_ok sy"
  shows "\<exists>r l. fst (ping sy dest ttl w) = Inr r
            \<and> stdout (snd (ping sy dest ttl w)) = stdout w @ [l] \<and> hop_no l = Some ttl"
proof -
  obtain ds ps t e w1 where r:
    "socketExchange sy (network sy ttl) dest (probe_bytes sy) ttl AttemptsCount w = ((ds, ps, t, e), w1)"
    by (cases "socketExchange sy (network sy ttl) dest (probe_bytes sy) ttl AttemptsCount w") auto
  have w1: "stdout w1 = stdout w"
    using socketExchange_stdout [of sy "network sy ttl" dest "probe_bytes sy" ttl AttemptsCount w] r
    by simp
  show ?thesis
  proof (cases e)
    case (Some err)
    then have "exchange_error sy dest ttl w = Some err" using r by (simp add: exchange_error_def)
    then show ?thesis using ping_error [of sy dest ttl w err] by auto
  next
    case None
    have "fst (socketExchange sy (network sy ttl) dest (probe_bytes sy) ttl AttemptsCount w) = (ds, ps, t, None)"
      using r None by simp
    then have sh: "t = Some ICMPTypeEchoReply \<or> t = Some ICMPTypeTimeExceeded" "length ps = nat AttemptsCount"
      using socketExchange_shape by blast+
    have "ps \<noteq> []" using sh(2) by (auto simp add: AttemptsCount_def)
    then obtain str where str: "createPeersString sy ps = Inr str"
      using createPeersString_ok [OF assms] by blast
    show ?thesis
    proof (cases "t = Some ICMPTypeEchoReply")
      case True
      have "ping sy dest ttl w = (Inr True, w1\<lparr>stdout := stdout w1 @ [HopReached ttl ds str]\<rparr>)"
        using r None True str by (simp add: ping_def probe_bytes_def Let_def)
      then show ?thesis using w1 by auto
    next
      case False
      then have t: "t = Some ICMPTypeTimeExceeded" "ICMPTypeTimeExceeded \<noteq> ICMPTypeEchoReply"
        using sh(1) by auto
      have "ping sy dest ttl w = (Inr False, w1\<lparr>stdout := stdout w1 @ [HopTTLExc ttl ds str]\<rparr>)"
        using r None t str by (simp add: ping_def probe_bytes_def Let_def)
      then show ?thesis using w1 by auto
    qed
  qed
qed

lemma sweep_probes_terminal [simp]:
  "sweep_probes echo n Reached = []" "sweep_probes echo n Exhausted = []"
  by (cases n; simp)+

lemma hop_reached_world:
  "hop_reached sy dest h =
     (exchange_error sy dest h w = None \<and> exchange_class sy dest h w = Some ICMPTypeEchoReply)"
  unfolding hop_reached_def exchange_error_def exchange_class_def
  using socketExchange_world_indep [of sy "network sy h" dest "probe_bytes sy" h AttemptsCount world0 w]
  by simp

lemma ping_reached:
  assumes "names_ok sy"
  shows "fst (ping sy dest h w) = Inr (hop_reached sy dest h)"
proof -
  obtain ds ps t e where r:
    "fst (socketExchange sy (network sy h) dest (probe_bytes sy) h AttemptsCount w) = (ds, ps, t, e)"
    by (cases "fst (socketExchange sy (network sy h) dest (probe_bytes sy) h AttemptsCount w)") auto
  have hr: "hop_reached sy dest h = (e = None \<and> t = Some ICMPTypeEchoReply)"
    using hop_reached_world [of sy dest h w] r by (simp add: exchange_error_def exchange_class_def)
  show ?thesis
  proof (cases e)
    case (Some err)
    then show ?thesis unfolding ping_fst r hr by simp
  next
    case None
    have sh: "t = Some ICMPTypeEchoReply \<or> t = Some ICMPTypeTimeExceeded" "length ps = nat AttemptsCount"
      using socketExchange_shape r None by blast+
    have "ps \<noteq> []" using sh(2) by (auto simp add: AttemptsCount_def)
    then obtain str where str: "createPeersString sy ps = Inr str"
      using createPeersString_ok [OF assms] by blast
    show ?thesis
    proof (cases "t = Some ICMPTypeEchoReply")
      case True
      then show ?thesis unfolding ping_fst r hr using None str by simp
    next
      case False
      then have "t = Some ICMPTypeTimeExceeded" "ICMPTypeTimeExceeded \<noteq> ICMPTypeEchoReply"
        using sh(1) by auto
      then show ?thesis unfolding ping_fst r hr using None str by simp
    qed
  qed
qed

lemma tracert_loop_refines:
  assumes "names_ok sy" and "i \<le> MaxTTL + 1"
  shows "exit_state (fst (tracert_loop sy dest i w))
           = Some (sweep_run (hop_reached sy dest) (nat (MaxTTL + 1 - i))
                     (if i \<le> MaxTTL then Sweeping i else Exhausted))
       \<and> (\<exists>ls. stdout (snd (tracert_loop sy dest i w)) = stdout w @ ls
              \<and> map hop_no ls = map Some (sweep_probes (hop_reached sy dest) (nat (MaxTTL + 1 - i))
                     (if i \<le> MaxTTL then Sweeping i else Exhausted)))"
  using assms
proof (induction sy dest i w rule: tracert_loop.induct)
  case (1 sy dest i w)
  let ?echo = "hop_reached sy dest"
  show ?case
  proof (cases "i \<le> MaxTTL")
    case False
    then have "nat (MaxTTL + 1 - i) = 0" by simp
    then show ?thesis using False by (simp add: tracert_loop.simps [of sy dest i])
  next
    case True
    obtain r l where p: "fst (ping sy dest i w) = Inr r"
      "stdout (snd (ping sy dest i w)) = stdout w @ [l]" "hop_no l = Some i"
      using ping_line [OF "1.prems"(1)] by blast
    obtain w' where pw: "ping sy dest i w = (Inr r, w')"
      using p(1) by (cases "ping sy dest i w") simp
    have w': "stdout w' = stdout w @ [l]" using p(2) pw by simp
    have r: "r = ?echo i"
      using p(1) ping_reached [OF "1.prems"(1), of dest i w] by simp
    have n: "nat (MaxTTL + 1 - i) = Suc (nat (MaxTTL + 1 - (i + 1)))" using True by simp
    show ?thesis
    proof (cases r)
      case True
      have "tracert_loop sy dest i w = (Broke, w')"
        using \<open>i \<le> MaxTTL\<close> pw True by (simp add: tracert_loop.simps [of sy dest i])
      then show ?thesis
        using \<open>i \<le> MaxTTL\<close> True r w' p(3) by (simp add: n)
    next
      case False
      have eq: "tracert_loop sy dest i w = tracert_loop sy dest (i + 1) w'"
        using \<open>i \<le> MaxTTL\<close> pw False by (simp add: tracert_loop.simps [of sy dest i])
      have st: "sweep_step ?echo (Sweeping i) = (if i + 1 \<le> MaxTTL then Sweeping (i + 1) else Exhausted)"
        using False r by (simp add: Let_def)
      have i1: "i + 1 \<le> MaxTTL + 1" using \<open>i \<le> MaxTTL\<close> by simp
      have ih: "exit_state (fst (tracert_loop sy dest (i + 1) w'))
           = Some (sweep_run ?echo (nat (MaxTTL + 1 - (i + 1)))
                     (if i + 1 \<le> MaxTTL then Sweeping (i + 1) else Exhausted))
       \<and> (\<exists>ls. stdout (snd (tracert_loop sy dest (i + 1) w')) = stdout w' @ ls
              \<and> map hop_no ls = map Some (sweep_probes ?echo (nat (MaxTTL + 1 - (i + 1)))
                     (if i + 1 \<le> MaxTTL then Sweeping (i + 1) else Exhausted)))"
        using "1.IH" [OF \<open>i \<le> MaxTTL\<close> pw [symmetric] refl _ "1.prems"(1) i1] False by simp
      then obtain ls where ls: "stdout (snd (tracert_loop sy dest (i + 1) w')) = stdout w' @ ls"
        "map hop_no ls = map Some (sweep_probes ?echo (nat (MaxTTL + 1 - (i + 1)))
                     (if i + 1 \<le> MaxTTL then Sweeping (i + 1) else Exhausted))"
        by blast
      have a: "exit_state (fst (tracert_loop sy dest i w))
           = Some (sweep_run ?echo (nat (MaxTTL + 1 - i)) (if i \<le> MaxTTL then Sweeping i else Exhausted))"
        using ih \<open>i \<le> MaxTTL\<close> by (simp only: eq n sweep_run.simps st if_True)
      have b1: "stdout (snd (tracert_loop sy dest i w)) = stdout w @ (l # ls)"
        using ls(1) w' by (simp add: eq)
      have b2: "map hop_no (l # ls) = map Some (sweep_probes ?echo (nat (MaxTTL + 1 - i))
                     (if i \<le> MaxTTL then Sweeping i else Exhausted))"
        using ls(2) p(3) \<open>i \<le> MaxTTL\<close> by (simp only: n sweep_probes.simps st if_True list.map)
      show ?thesis using a b1 b2 by blast
    qed
  qed
qed

lemma sweep_run_ends:
  "i \<le> MaxTTL + 1 \<Longrightarrow> n = nat (MaxTTL + 1 - i) \<Longrightarrow>
     sweep_run echo n (if i \<le> MaxTTL then Sweeping i else Exhausted) \<in> {Reached, Exhausted}"
proof (induction n arbitrary: i)
  case 0
  then show ?case by simp
next
  case (Suc n)
  then have i: "i \<le> MaxTTL" by simp
  have n: "n = nat (MaxTTL + 1 - (i + 1))" using Suc.prems by simp
  show ?case
  proof (cases "echo i")
    case True
    then show ?thesis using i by simp
  next
    case False
    have "sweep_step echo (Sweeping i) = (if i + 1 \<le> MaxTTL then Sweeping (i + 1) else Exhausted)"
      using False by (simp add: Let_def)
    then show ?thesis
      using Suc.IH [of "i + 1", OF _ n] i by simp
  qed
qed

lemma length_sweep_probes: "length (sweep_probes echo n s) \<le> n"
proof (induction n arbitrary: s)
  case 0
  then show ?case by simp
next
  case (Suc n)
  show ?case
  proof (cases s)
    case (Sweeping h)
    then show ?thesis using Suc.IH [of "sweep_step echo (Sweeping h)"] by simp
  qed simp_all
qed

lemma sweep_probes_consecutive:
  "sweep_probes echo n (Sweeping i) = [i..i + int (length (sweep_probes echo n (Sweeping i))) - 1]"
proof (induction n arbitrary: i)
  case 0
  then show ?case by simp
next
  case (Suc n)
  show ?case
  proof (cases "sweep_step echo (Sweeping i) = Sweeping (i + 1)")
    case True
    let ?rest = "sweep_probes echo n (Sweeping (i + 1))"
    have "?rest = [i + 1..i + 1 + int (length ?rest) - 1]" by (rule Suc.IH)
    then have "i # ?rest = [i..i + int (length (i # ?rest)) - 1]"
      by (simp add: upto_rec1 [of i])
    then show ?thesis using True by simp
  next
    case False
    then have "sweep_step echo (Sweeping i) = Reached \<or> sweep_step echo (Sweeping i) = Exhausted"
      by (simp add: Let_def split: if_splits)
    then show ?thesis by auto
  qed
qed

lemma sweep_probes_stop:
  "h \<in> set (sweep_probes echo n (Sweeping i)) \<Longrightarrow> i \<le> g \<Longrightarrow> g < h \<Longrightarrow> \<not> echo g"
proof (induction n arbitrary: i)
  case 0
  then show ?case by simp
next
  case (Suc n)
  show ?case
  proof (cases "sweep_step echo (Sweeping i) = Sweeping (i + 1)")
    case True
    then have ne: "\<not> echo i" by (simp add: Let_def split: if_splits)
    have "h = i \<or> h \<in> set (sweep_probes echo n (Sweeping (i + 1)))"
      using Suc.prems(1) True by simp
    then show ?thesis
    proof
      assume "h = i"
      then show ?thesis using Suc.prems by simp
    next
      assume h: "h \<in> set (sweep_probes echo n (Sweeping (i + 1)))"
      show ?thesis
      proof (cases "g = i")
        case True
        then show ?thesis using ne by simp
      next
        case False
        then have "i + 1 \<le> g" using Suc.prems(2) by simp
        then show ?thesis using Suc.IH [OF h _ Suc.prems(3)] by simp
      qed
    qed
  next
    case False
    then have "sweep_step echo (Sweeping i) = Reached \<or> sweep_step echo (Sweeping i) = Exhausted"
      by (simp add: Let_def split: if_splits)
    then have "h = i" using Suc.prems(1) by auto
    then show ?thesis using Suc.prems by simp
  qed
qed

lemma tracert_fst:
  assumes "ResolveIPAddr sy a = Inr dest"
  shows "fst (tracert sy a w)
           = Some (fst (tracert_loop sy dest 1 (w\<lparr>stdout := stdout w @ [Tracing a MaxTTL]\<rparr>)))"
  using assms by (simp add: tracert_def Let_def split: prod.splits loop_exit.splits)

text \<open>
  Claim C4. With reverse DNS returning no empty name, the loop of tracert started at hop
  limit 1 ends as the state machine of the specification does from Sweeping(1): by
  \<open>break\<close> where the machine reaches Reached, by its condition where it reaches Exhausted, and
  the machine is in one of the two after MaxTTL steps. The hop limits it probes (one printed
  line each) are those the machine probes: 1, 2, ... in order, at most MaxTTL of them, and
  none after the first hop limit classified EchoReply. The machine's test "classified
  EchoReply" is that the exchange of the hop returns no error and the classification
  EchoReply, in whatever world it runs, and ping returns true for exactly those hops.
\<close>
theorem tracert_state_machine:
  assumes "names_ok sy"
  shows "exit_state (fst (tracert_loop sy dest 1 w))
           = Some (sweep_run (hop_reached sy dest) (nat MaxTTL) (Sweeping 1))
       \<and> sweep_run (hop_reached sy dest) (nat MaxTTL) (Sweeping 1) \<in> {Reached, Exhausted}
       \<and> (\<exists>ls. stdout (snd (tracert_loop sy dest 1 w)) = stdout w @ ls
              \<and> map hop_no ls = map Some (sweep_probes (hop_reached sy dest) (nat MaxTTL) (Sweeping 1))
              \<and> map hop_no ls = map Some [1..int (length ls)]
              \<and> length ls \<le> nat MaxTTL
              \<and> (\<forall>h g. Some h \<in> set (map hop_no ls) \<and> 1 \<le> g \<and> g < h
                    \<longrightarrow> \<not> hop_reached sy dest g))
       \<and> (ResolveIPAddr sy a = Inr dest \<longrightarrow>
             Option.bind (fst (tracert sy a w)) exit_state
               = Some (sweep_run (hop_reached sy dest) (nat MaxTTL) (Sweeping 1)))
       \<and> (\<forall>h w'. (fst (ping sy dest h w') = Inr True) = hop_reached sy dest h)
       \<and> (\<forall>h w'. hop_reached sy dest h
             = (exchange_error sy dest h w' = None
                \<and> exchange_class sy dest h w' = Some ICMPTypeEchoReply))"
proof -
  let ?echo = "hop_reached sy dest"
  let ?P = "sweep_probes ?echo (nat MaxTTL) (Sweeping 1)"
  have m: "(1::int) \<le> MaxTTL + 1" "(1::int) \<le> MaxTTL" "nat (MaxTTL + 1 - 1) = nat MaxTTL"
    by (simp_all add: MaxTTL_def)
  have R: "\<And>w. exit_state (fst (tracert_loop sy dest 1 w)) = Some (sweep_run ?echo (nat MaxTTL) (Sweeping 1))
       \<and> (\<exists>ls. stdout (snd (tracert_loop sy dest 1 w)) = stdout w @ ls \<and> map hop_no ls = map Some ?P)"
    using tracert_loop_refines [OF assms m(1), of dest] m(2,3) by simp
  obtain ls where ls: "stdout (snd (tracert_loop sy dest 1 w)) = stdout w @ ls" "map hop_no ls = map Some ?P"
    using R [of w] by blast
  have len: "length ls = length ?P"
    using ls(2) by (metis length_map)
  have T: "sweep_run ?echo (nat MaxTTL) (Sweeping 1) \<in> {Reached, Exhausted}"
    using sweep_run_ends [of 1 "nat MaxTTL" ?echo] m by simp
  have C: "map hop_no ls = map Some [1..int (length ls)]"
    using sweep_probes_consecutive [of ?echo "nat MaxTTL" 1] ls(2) len by simp
  have L: "length ls \<le> nat MaxTTL"
    using length_sweep_probes [of ?echo "nat MaxTTL" "Sweeping 1"] len by simp
  have S: "\<forall>h g. Some h \<in> set (map hop_no ls) \<and> 1 \<le> g \<and> g < h \<longrightarrow> \<not> ?echo g"
  proof (intro allI impI)
    fix h g
    assume a: "Some h \<in> set (map hop_no ls) \<and> 1 \<le> g \<and> g < h"
    then have "h \<in> set ?P" by (auto simp add: ls(2))
    then show "\<not> ?echo g" using sweep_probes_stop [of h ?echo "nat MaxTTL" 1 g] a by simp
  qed
  have Tr: "ResolveIPAddr sy a = Inr dest \<longrightarrow>
             Option.bind (fst (tracert sy a w)) exit_state = Some (sweep_run ?echo (nat MaxTTL) (Sweeping 1))"
    using R by (simp add: tracert_fst)
  have I: "\<forall>h w'. (fst (ping sy dest h w') = Inr True) = ?echo h"
    using ping_reached [OF assms, of dest] by simp
  have J: "\<forall>h w'. ?echo h
             = (exchange_error sy dest h w' = None
                \<and> exchange_class sy dest h w' = Some ICMPTypeEchoReply)"
    using hop_reached_world [of sy dest] by blast
  show ?thesis
    using R [of w] T ls(1) ls(2) C L S Tr I J by blast
qed

lemma exchange_fails_first:
  assumes "listen_err (network sy ttl) = None" and "deadline_err (network sy ttl) = None"
    and "probe_outcome sy (probe_bytes sy) (attempt (network sy ttl) 0) = Inl err"
  shows "exchange_error sy dest ttl w = Some err"
proof -
  have k: "0 < nat AttemptsCount" by (simp add: AttemptsCount_def)
  have v: "\<forall>j < (0::nat). probe_outcome sy (probe_bytes sy) (attempt (network sy ttl) j)
      = Inr (projr (probe_outcome sy (probe_bytes sy) (attempt (network sy ttl) j)))"
    by simp
  obtain xs w' where "socketExchange sy (network sy ttl) dest (probe_bytes sy) ttl AttemptsCount w
      = (([0], [], None, Some err), w')"
    using socketExchange_fail [OF assms(1,2) k v assms(3), of dest ttl w] by blast
  then show ?thesis by (simp add: exchange_error_def)
qed

lemma all_time_out_error:
  assumes "all_time_out sy"
  shows "\<exists>err. exchange_error sy dest ttl w = Some err"
proof -
  let ?e = "attempt (network sy ttl) 0"
  have l: "listen_err (network sy ttl) = None" "deadline_err (network sy ttl) = None"
    and wr: "write_result ?e = Inr (int (length (probe_bytes sy)))" and rd: "isl (read_result ?e)"
    using assms by (simp_all add: all_time_out_def)
  obtain err where "read_result ?e = Inl err" using rd by (cases "read_result ?e") simp_all
  then have "probe_outcome sy (probe_bytes sy) ?e = Inl err"
    using wr by (simp add: probe_outcome_def)
  then show ?thesis using exchange_fails_first [OF l] by blast
qed

lemma tracert_loop_all_fail:
  assumes "\<forall>ttl w. \<exists>err. exchange_error sy dest ttl w = Some err" and "i \<le> MaxTTL + 1"
  shows "fst (tracert_loop sy dest i w) = RanOut
       \<and> stdout (snd (tracert_loop sy dest i w)) = stdout w @ map HopError [i..MaxTTL]"
  using assms
proof (induction sy dest i w rule: tracert_loop.induct)
  case (1 sy dest i w)
  show ?case
  proof (cases "i \<le> MaxTTL")
    case False
    then show ?thesis by (simp add: tracert_loop.simps [of sy dest i])
  next
    case True
    obtain err where e: "exchange_error sy dest i w = Some err" using "1.prems"(1) by blast
    obtain w' where pw: "ping sy dest i w = (Inr False, w')" "stdout w' = stdout w @ [HopError i]"
      using ping_error [OF e] by (cases "ping sy dest i w") simp
    have eq: "tracert_loop sy dest i w = tracert_loop sy dest (i + 1) w'"
      using True pw(1) by (simp add: tracert_loop.simps [of sy dest i])
    have i1: "i + 1 \<le> MaxTTL + 1" using True by simp
    have ih: "fst (tracert_loop sy dest (i + 1) w') = RanOut
       \<and> stdout (snd (tracert_loop sy dest (i + 1) w')) = stdout w' @ map HopError [i + 1..MaxTTL]"
      using "1.IH" [OF True pw(1) [symmetric] refl _ "1.prems"(1) i1] by simp
    have up: "[i..MaxTTL] = i # [i + 1..MaxTTL]" using True by (simp add: upto_rec1)
    show ?thesis using ih pw(2) by (simp add: eq up)
  qed
qed

text \<open>
  Claim C6. An error returned by the exchange of one hop makes ping print the error line of
  that hop and return false, and the loop goes on with the next hop limit. When every
  attempt of every hop times out, tracert probes exactly the hop limits 1 to MaxTTL, prints
  an error line for each, and leaves the loop by its condition (Exhausted).
\<close>
theorem hop_errors_are_scoped_to_the_hop:
  "(exchange_error sy dest ttl w = Some err \<longrightarrow>
      fst (ping sy dest ttl w) = Inr False
      \<and> stdout (snd (ping sy dest ttl w)) = stdout w @ [HopError ttl]
      \<and> (ttl \<le> MaxTTL \<longrightarrow>
           tracert_loop sy dest ttl w = tracert_loop sy dest (ttl + 1) (snd (ping sy dest ttl w))))
   \<and> (all_time_out sy \<and> ResolveIPAddr sy a = Inr dest \<longrightarrow>
      fst (tracert sy a w) = Some RanOut
      \<and> exit_state RanOut = Some Exhausted
      \<and> stdout (snd (tracert sy a w))
          = stdout w @ [Tracing a MaxTTL] @ map HopError [1..MaxTTL] @ [Ended]
      \<and> length (map HopError [1..MaxTTL]) = nat MaxTTL)"
proof -
  have A: "exchange_error sy dest ttl w = Some err \<longrightarrow>
      fst (ping sy dest ttl w) = Inr False
      \<and> stdout (snd (ping sy dest ttl w)) = stdout w @ [HopError ttl]
      \<and> (ttl \<le> MaxTTL \<longrightarrow>
           tracert_loop sy dest ttl w = tracert_loop sy dest (ttl + 1) (snd (ping sy dest ttl w)))"
  proof
    assume e: "exchange_error sy dest ttl w = Some err"
    have p: "fst (ping sy dest ttl w) = Inr False"
      "stdout (snd (ping sy dest ttl w)) = stdout w @ [HopError ttl]"
      using ping_error [OF e] by simp_all
    have "ttl \<le> MaxTTL \<longrightarrow>
           tracert_loop sy dest ttl w = tracert_loop sy dest (ttl + 1) (snd (ping sy dest ttl w))"
      using p(1) by (cases "ping sy dest ttl w") (simp add: tracert_loop.simps [of sy dest ttl])
    then show "fst (ping sy dest ttl w) = Inr False
      \<and> stdout (snd (ping sy dest ttl w)) = stdout w @ [HopError ttl]
      \<and> (ttl \<le> MaxTTL \<longrightarrow>
           tracert_loop sy dest ttl w = tracert_loop sy dest (ttl + 1) (snd (ping sy dest ttl w)))"
      using p by simp
  qed
  have B: "all_time_out sy \<and> ResolveIPAddr sy a = Inr dest \<longrightarrow>
      fst (tracert sy a w) = Some RanOut
      \<and> exit_state RanOut = Some Exhausted
      \<and> stdout (snd (tracert sy a w))
          = stdout w @ [Tracing a MaxTTL] @ map HopError [1..MaxTTL] @ [Ended]
      \<and> length (map HopError [1..MaxTTL]) = nat MaxTTL"
  proof
    assume h: "all_time_out sy \<and> ResolveIPAddr sy a = Inr dest"
    let ?w0 = "w\<lparr>stdout := stdout w @ [Tracing a MaxTTL]\<rparr>"
    have f: "\<forall>ttl w. \<exists>err. exchange_error sy dest ttl w = Some err"
      using all_time_out_error h by blast
    have m: "(1::int) \<le> MaxTTL + 1" by (simp add: MaxTTL_def)
    obtain x w' where l: "tracert_loop sy dest 1 ?w0 = (x, w')"
      by (cases "tracert_loop sy dest 1 ?w0")
    have x: "x = RanOut" and w': "stdout w' = stdout ?w0 @ map HopError [1..MaxTTL]"
      using tracert_loop_all_fail [OF f m, of ?w0] l by simp_all
    have t: "tracert sy a w = (Some RanOut, w'\<lparr>stdout := stdout w' @ [Ended]\<rparr>)"
      using h l x by (simp add: tracert_def Let_def)
    have n: "length (map HopError [1..MaxTTL]) = nat MaxTTL"
      by (simp add: MaxTTL_def)
    show "fst (tracert sy a w) = Some RanOut
      \<and> exit_state RanOut = Some Exhausted
      \<and> stdout (snd (tracert sy a w))
          = stdout w @ [Tracing a MaxTTL] @ map HopError [1..MaxTTL] @ [Ended]
      \<and> length (map HopError [1..MaxTTL]) = nat MaxTTL"
      using t w' n by simp
  qed
  show ?thesis using A B by blast
qed

lemma names_ok_example: "names_ok (example_sys net)"
  by (simp add: names_ok_def example_sys_def example_lookup_def)

lemma probe_bytes_example: "length (probe_bytes (example_sys net)) = 64"
  by (simp add: probe_bytes_def example_sys_def length_example_probe)

lemma two_hop_reached:
  "\<not> hop_reached (example_sys two_hop_net) ''10.0.0.2'' 1"
  "hop_reached (example_sys two_hop_net) ''10.0.0.2'' 2"
  "exchange_class (example_sys two_hop_net) ''10.0.0.2'' 1 world0 = Some ICMPTypeTimeExceeded"
  "exchange_class (example_sys two_hop_net) ''10.0.0.2'' 2 world0 = Some ICMPTypeEchoReply"
proof -
  let ?S = "example_sys two_hop_net"
  have len: "length (probe_bytes ?S) = 64" by (rule probe_bytes_example)
  note len = len len [unfolded example_sys_def]
  have x1: "fst (socketExchange ?S (network ?S 1) ''10.0.0.2'' (probe_bytes ?S) 1 AttemptsCount world0)
     = ([Second, Second, Second], [''10.0.0.1'', ''10.0.0.1'', ''10.0.0.1''],
        Some ICMPTypeTimeExceeded, None)"
    by (simp add: two_hop_net_def len AttemptsCount_def eval_defs)
  have x2: "fst (socketExchange ?S (network ?S 2) ''10.0.0.2'' (probe_bytes ?S) 2 AttemptsCount world0)
     = ([Second, Second, Second], [''10.0.0.2'', ''10.0.0.2'', ''10.0.0.2''],
        Some ICMPTypeEchoReply, None)"
    by (simp add: two_hop_net_def len AttemptsCount_def eval_defs)
  show "\<not> hop_reached ?S ''10.0.0.2'' 1"
    unfolding hop_reached_def exchange_error_def exchange_class_def x1
    by (simp add: ICMPTypeTimeExceeded_def ICMPTypeEchoReply_def)
  show "hop_reached ?S ''10.0.0.2'' 2"
    unfolding hop_reached_def exchange_error_def exchange_class_def x2
    by simp
  show "exchange_class ?S ''10.0.0.2'' 1 world0 = Some ICMPTypeTimeExceeded"
    unfolding exchange_class_def x1 by simp
  show "exchange_class ?S ''10.0.0.2'' 2 world0 = Some ICMPTypeEchoReply"
    unfolding exchange_class_def x2 by simp
qed

theorem tracert_state_machine_witness:
  "names_ok (example_sys two_hop_net)
   \<and> \<not> hop_reached (example_sys two_hop_net) ''10.0.0.2'' 1
   \<and> hop_reached (example_sys two_hop_net) ''10.0.0.2'' 2
   \<and> exchange_class (example_sys two_hop_net) ''10.0.0.2'' 1 world0 = Some ICMPTypeTimeExceeded
   \<and> exchange_class (example_sys two_hop_net) ''10.0.0.2'' 2 world0 = Some ICMPTypeEchoReply
   \<and> fst (ping (example_sys two_hop_net) ''10.0.0.2'' 2 world0) = Inr True
   \<and> exit_state (fst (tracert_loop (example_sys two_hop_net) ''10.0.0.2'' 1 world0)) = Some Reached
   \<and> (\<exists>ls. stdout (snd (tracert_loop (example_sys two_hop_net) ''10.0.0.2'' 1 world0)) = ls
         \<and> map hop_no ls = [Some 1, Some 2])
   \<and> Option.bind (fst (tracert (example_sys two_hop_net) ''10.0.0.2'' world0)) exit_state = Some Reached"
proof -
  let ?S = "example_sys two_hop_net"
  let ?echo = "hop_reached ?S ''10.0.0.2''"
  have ok: "names_ok ?S" by (rule names_ok_example)
  have n: "nat MaxTTL = Suc (Suc 62)" by (simp add: MaxTTL_def)
  have m: "\<not> (2::int) > MaxTTL" by (simp add: MaxTTL_def)
  have s1: "sweep_step ?echo (Sweeping 1) = Sweeping 2"
    using two_hop_reached(1) m by (simp add: Let_def)
  have s2: "sweep_step ?echo (Sweeping 2) = Reached"
    using two_hop_reached(2) by simp
  have run: "sweep_run ?echo (nat MaxTTL) (Sweeping 1) = Reached"
    by (simp only: n sweep_run.simps s1 s2 sweep_run_terminal)
  have pr: "sweep_probes ?echo (nat MaxTTL) (Sweeping 1) = [1, 2]"
    by (simp only: n sweep_probes.simps s1 s2 sweep_probes_terminal)
  have r: "ResolveIPAddr ?S ''10.0.0.2'' = Inr ''10.0.0.2''" by (simp add: example_sys_def)
  note T = tracert_state_machine [OF ok, of "''10.0.0.2''" world0 "''10.0.0.2''"]
  have pg: "fst (ping ?S ''10.0.0.2'' 2 world0) = Inr True"
    using T two_hop_reached(2) by blast
  have st: "stdout world0 = []" by (simp add: world0_def)
  show ?thesis
    using ok two_hop_reached r pg T
    by (auto simp add: run pr st)
qed

theorem hop_errors_are_scoped_to_the_hop_witness:
  "exchange_error (example_sys silent_net) ''10.0.0.9'' 1 world0 = Some (LibError ''i/o timeout'')
   \<and> fst (ping (example_sys silent_net) ''10.0.0.9'' 1 world0) = Inr False
   \<and> stdout (snd (ping (example_sys silent_net) ''10.0.0.9'' 1 world0)) = [HopError 1]
   \<and> all_time_out (example_sys silent_net)
   \<and> ResolveIPAddr (example_sys silent_net) ''10.0.0.9'' = Inr ''10.0.0.9''
   \<and> fst (tracert (example_sys silent_net) ''10.0.0.9'' world0) = Some RanOut
   \<and> stdout (snd (tracert (example_sys silent_net) ''10.0.0.9'' world0))
       = [Tracing ''10.0.0.9'' 64] @ map HopError [1..64] @ [Ended]"
proof -
  let ?S = "example_sys silent_net"
  have len: "length (probe_bytes ?S) = 64" by (rule probe_bytes_example)
  note len = len len [unfolded example_sys_def]
  have e: "exchange_error ?S ''10.0.0.9'' 1 world0 = Some (LibError ''i/o timeout'')"
    by (simp add: exchange_error_def silent_net_def len AttemptsCount_def eval_defs)
  have a: "all_time_out ?S"
    unfolding all_time_out_def len(1)
    by (simp add: example_sys_def silent_net_def times_out_def)
  have r: "ResolveIPAddr ?S ''10.0.0.9'' = Inr ''10.0.0.9''" by (simp add: example_sys_def)
  show ?thesis
    using e a r
      hop_errors_are_scoped_to_the_hop [of ?S "''10.0.0.9''" 1 world0 "LibError ''i/o timeout''" "''10.0.0.9''"]
    by (simp add: world0_def MaxTTL_def)
qed

end
